theory Spec2Isabelle
  imports Main "HOL-Library.Char_ord" "HOL-Library.List_Lexorder" "HOL-Library.Product_Lexorder"
    "HOL-Library.Multiset"
begin

section \<open>Values, errors and unit conversions\<close>

text \<open>
  Timestamps and durations are whole numbers of microseconds; JavaScript numbers that hold
  them are modelled as \<^typ>\<open>int\<close>.  A read that JavaScript answers with
  \<open>undefined\<close> (an array index out of range) and the \<open>NaN\<close> that arithmetic on it
  produces are both the value \<open>None\<close> of \<^typ>\<open>int option\<close>.
\<close>

type_synonym Microseconds = int
type_synonym Milliseconds = int
type_synonym Seconds = int

text \<open>
  An identifier is used only as a property key of an object, or as the suffix of a key
  string; it is modelled by the string that JavaScript derives from it.
\<close>

type_synonym Id = string

datatype error =
    AssertionError string
  | NotImplemented
  | CollaboratorError string
  | TypeError string

text \<open>\<open>1000 * milliseconds\<close>\<close>

definition millisecondsToMicroseconds :: "Milliseconds \<Rightarrow> Microseconds" where
  "millisecondsToMicroseconds milliseconds = 1000 * milliseconds"

text \<open>\<open>Math.ceil(microseconds / 1000)\<close>; on integers the ceiling of a quotient is the
  negated floor of the negated quotient, and \<open>div\<close> on \<^typ>\<open>int\<close> is the floor.\<close>

definition microsecondsToMilliseconds :: "Microseconds \<Rightarrow> Milliseconds" where
  "microsecondsToMilliseconds microseconds = - ((- microseconds) div 1000)"

text \<open>\<open>Math.ceil(microseconds / 1000 / 1000)\<close>\<close>

definition microsecondsToSeconds :: "Microseconds \<Rightarrow> Seconds" where
  "microsecondsToSeconds microseconds = - ((- microseconds) div 1000000)"

text \<open>\<open>timestamps[i]\<close>: \<open>undefined\<close> outside the array.\<close>

definition at :: "int list \<Rightarrow> int \<Rightarrow> int option" where
  "at xs i = (if 0 \<le> i \<and> i < int (length xs) then Some (xs ! nat i) else None)"


section \<open>The base class: configuration and the decision engine\<close>

text \<open>The options object handed to the constructor; a missing property is \<open>None\<close>.\<close>

record RateLimiterOptions =
  opt_interval :: "Milliseconds option"
  opt_maxInInterval :: "int option"
  opt_minDifference :: "Milliseconds option"

text \<open>The fields the constructor stores on the instance.\<close>

record limiter =
  interval :: Microseconds
  maxInInterval :: int
  minDifference :: Microseconds

text \<open>
  The constructor.  \<open>minDifference\<close> defaults to 0 when the property is missing; the three
  assertions run in the source's order, and a comparison with \<open>undefined\<close> is false, so
  a missing \<open>interval\<close> or \<open>maxInInterval\<close> fails its assertion.
\<close>

definition RateLimiter :: "RateLimiterOptions \<Rightarrow> error + limiter" where
  "RateLimiter options =
     (let minDiff = (case opt_minDifference options of None \<Rightarrow> 0 | Some d \<Rightarrow> d) in
      case opt_interval options of
        None \<Rightarrow> Inl (AssertionError ''Must pass a positive integer for `options.interval`'')
      | Some i \<Rightarrow>
          if \<not> i > 0
          then Inl (AssertionError ''Must pass a positive integer for `options.interval`'')
          else
            (case opt_maxInInterval options of
               None \<Rightarrow>
                 Inl (AssertionError ''Must pass a positive integer for `options.maxInInterval`'')
             | Some m \<Rightarrow>
                 if \<not> m > 0
                 then Inl (AssertionError
                        ''Must pass a positive integer for `options.maxInInterval`'')
                 else if \<not> minDiff \<ge> 0
                 then Inl (AssertionError ''`options.minDifference` cannot be negative'')
                 else Inr \<lparr> interval = millisecondsToMicroseconds i,
                            maxInInterval = m,
                            minDifference = millisecondsToMicroseconds minDiff \<rparr>))"

record RateLimitInfo =
  blocked :: bool
  blockedDueToCount :: bool
  blockedDueToMinDifference :: bool
  millisecondsUntilAllowed :: "Milliseconds option"
  actionsRemaining :: int

text \<open>
  \<open>timestamps[Math.max(0, numTimestamps - this.maxInInterval)] - currentTimestamp +
  this.interval\<close>, the expression that occurs twice in \<open>calculateInfo\<close>; \<open>None\<close> is the
  \<open>NaN\<close> that an \<open>undefined\<close> operand gives.
\<close>

definition windowWait :: "'a limiter_scheme \<Rightarrow> int list \<Rightarrow> Microseconds option" where
  "windowWait this timestamps =
     (let numTimestamps = int (length timestamps) in
      case (at timestamps (max 0 (numTimestamps - maxInInterval this)),
            at timestamps (numTimestamps - 1)) of
        (Some t, Some currentTimestamp) \<Rightarrow> Some (t - currentTimestamp + interval this)
      | _ \<Rightarrow> None)"

text \<open>
  \<open>calculateInfo(timestamps, isWould)\<close>.  \<open>Math.max\<close> and \<open>Math.ceil\<close> pass a
  \<open>NaN\<close> on, which \<open>map_option\<close> does for \<open>None\<close>.
\<close>

definition calculateInfo :: "'a limiter_scheme \<Rightarrow> int list \<Rightarrow> bool \<Rightarrow> RateLimitInfo" where
  "calculateInfo this timestamps isWould =
     (let numTimestamps = int (length timestamps);
          currentTimestamp = at timestamps (numTimestamps - 1);
          previousTimestamp = at timestamps (numTimestamps - 2);
          blockedDueToCount' = (numTimestamps > maxInInterval this);
          blockedDueToMinDifference' =
            (case previousTimestamp of
               None \<Rightarrow> False
             | Some p \<Rightarrow>
                 minDifference this > 0 \<and>
                 (case currentTimestamp of
                    None \<Rightarrow> False
                  | Some c \<Rightarrow> c - p < minDifference this));
          blocked' = (blockedDueToCount' \<or> blockedDueToMinDifference');
          microsecondsUntilUnblocked =
            (if numTimestamps \<ge> maxInInterval this then windowWait this timestamps
             else Some 0);
          microsecondsUntilAllowed =
            map_option (max (minDifference this)) microsecondsUntilUnblocked
      in if isWould then
           \<lparr> blocked = blocked',
             blockedDueToCount = blockedDueToCount',
             blockedDueToMinDifference = blockedDueToMinDifference',
             millisecondsUntilAllowed =
               map_option microsecondsToMilliseconds (windowWait this timestamps),
             actionsRemaining = max 0 (maxInInterval this - numTimestamps) \<rparr>
         else
           \<lparr> blocked = blocked',
             blockedDueToCount = blockedDueToCount',
             blockedDueToMinDifference = blockedDueToMinDifference',
             millisecondsUntilAllowed =
               map_option microsecondsToMilliseconds microsecondsUntilAllowed,
             actionsRemaining = max 0 (maxInInterval this - numTimestamps) \<rparr>)"


section \<open>The facade of the base class\<close>

text \<open>
  What an asynchronous method hands back: its promise resolves with a value, rejects with
  an error (also when the body of an \<open>async\<close> method throws), or never settles.
\<close>

datatype 'a promise =
    Resolved 'a
  | Rejected error
  | Unsettled

text \<open>
  The four public operations are written once, in the base class, over the
  \<open>getTimestamps\<close> method of the subclass, which is a parameter here.  A method takes the
  instance and returns it updated.  What a method reads from the outside world (the clock,
  a fresh token) is an argument \<open>env\<close>, in the order the code reads it.  An \<open>await\<close> on
  a promise that rejects or never settles ends the method the same way.
\<close>

definition limitWithInfo ::
  "('a limiter_scheme \<Rightarrow> Id \<Rightarrow> bool \<Rightarrow> 'e \<Rightarrow> int list promise \<times> 'a limiter_scheme) \<Rightarrow>
   'a limiter_scheme \<Rightarrow> Id \<Rightarrow> 'e \<Rightarrow> RateLimitInfo promise \<times> 'a limiter_scheme" where
  "limitWithInfo getTimestamps this ident env =
     (case getTimestamps this ident True env of
        (Resolved timestamps, this') \<Rightarrow> (Resolved (calculateInfo this' timestamps False), this')
      | (Rejected err, this') \<Rightarrow> (Rejected err, this')
      | (Unsettled, this') \<Rightarrow> (Unsettled, this'))"

text \<open>\<open>currentTimestamp\<close> is the second clock reading, taken after \<open>getTimestamps\<close>
  has returned.\<close>

definition wouldLimitWithInfo ::
  "('a limiter_scheme \<Rightarrow> Id \<Rightarrow> bool \<Rightarrow> 'e \<Rightarrow> int list promise \<times> 'a limiter_scheme) \<Rightarrow>
   'a limiter_scheme \<Rightarrow> Id \<Rightarrow> 'e \<Rightarrow> Microseconds \<Rightarrow>
   RateLimitInfo promise \<times> 'a limiter_scheme" where
  "wouldLimitWithInfo getTimestamps this ident env currentTimestamp =
     (case getTimestamps this ident False env of
        (Resolved existingTimestamps, this') \<Rightarrow>
          (Resolved (calculateInfo this' (existingTimestamps @ [currentTimestamp]) True), this')
      | (Rejected err, this') \<Rightarrow> (Rejected err, this')
      | (Unsettled, this') \<Rightarrow> (Unsettled, this'))"

definition limit ::
  "('a limiter_scheme \<Rightarrow> Id \<Rightarrow> bool \<Rightarrow> 'e \<Rightarrow> int list promise \<times> 'a limiter_scheme) \<Rightarrow>
   'a limiter_scheme \<Rightarrow> Id \<Rightarrow> 'e \<Rightarrow> bool promise \<times> 'a limiter_scheme" where
  "limit getTimestamps this ident env =
     (case limitWithInfo getTimestamps this ident env of
        (Resolved info, this') \<Rightarrow> (Resolved (blocked info), this')
      | (Rejected err, this') \<Rightarrow> (Rejected err, this')
      | (Unsettled, this') \<Rightarrow> (Unsettled, this'))"

definition wouldLimit ::
  "('a limiter_scheme \<Rightarrow> Id \<Rightarrow> bool \<Rightarrow> 'e \<Rightarrow> int list promise \<times> 'a limiter_scheme) \<Rightarrow>
   'a limiter_scheme \<Rightarrow> Id \<Rightarrow> 'e \<Rightarrow> Microseconds \<Rightarrow> bool promise \<times> 'a limiter_scheme" where
  "wouldLimit getTimestamps this ident env currentTimestamp =
     (case wouldLimitWithInfo getTimestamps this ident env currentTimestamp of
        (Resolved info, this') \<Rightarrow> (Resolved (blocked info), this')
      | (Rejected err, this') \<Rightarrow> (Rejected err, this')
      | (Unsettled, this') \<Rightarrow> (Unsettled, this'))"

text \<open>The base class's own \<open>clear\<close> and \<open>getTimestamps\<close> reject.\<close>

definition RateLimiter_clear ::
  "'a limiter_scheme \<Rightarrow> Id \<Rightarrow> unit promise \<times> 'a limiter_scheme" where
  "RateLimiter_clear this ident = (Rejected NotImplemented, this)"

definition RateLimiter_getTimestamps ::
  "'a limiter_scheme \<Rightarrow> Id \<Rightarrow> bool \<Rightarrow> 'e \<Rightarrow> int list promise \<times> 'a limiter_scheme" where
  "RateLimiter_getTimestamps this ident addNewTimestamp env = (Rejected NotImplemented, this)"


section \<open>The in-memory limiter\<close>

text \<open>
  \<open>storage\<close> and \<open>ttls\<close> are object literals used as dictionaries; the two maps hold
  their own properties.  A pending timeout is represented by the clock value at which it
  falls due: the clock reading at which it was set plus the delay the timer was armed with.
  This takes the timer to run on the clock that \<open>getCurrentMicroseconds\<close> reads.
\<close>

record inMemoryLimiter = limiter +
  storage :: "Id \<rightharpoonup> int list"
  ttls :: "Id \<rightharpoonup> Microseconds"

definition InMemoryRateLimiter :: "RateLimiterOptions \<Rightarrow> error + inMemoryLimiter" where
  "InMemoryRateLimiter options =
     (case RateLimiter options of
        Inl err \<Rightarrow> Inl err
      | Inr base \<Rightarrow>
          Inr \<lparr> interval = interval base, maxInInterval = maxInInterval base,
                minDifference = minDifference base,
                storage = Map.empty, ttls = Map.empty \<rparr>)"

text \<open>
  The names that an object literal inherits from \<open>Object.prototype\<close>.  Reading one of
  them from an object that has no own property of that name yields a function (for
  \<open>__proto__\<close>, the prototype object).
\<close>

definition inheritedProperty :: "Id \<Rightarrow> bool" where
  "inheritedProperty ident \<longleftrightarrow>
     ident \<in> set [''constructor'', ''hasOwnProperty'', ''isPrototypeOf'',
                  ''propertyIsEnumerable'', ''toLocaleString'', ''toString'', ''valueOf'',
                  ''__defineGetter__'', ''__defineSetter__'', ''__lookupGetter__'',
                  ''__lookupSetter__'', ''__proto__'']"

text \<open>
  \<open>this.storage[id] || []\<close>: the array stored under the name, the empty array when the
  object has no such property, and \<open>None\<close> when the name is an inherited one: a value that
  is not falsy and is not an array.
\<close>

definition storedOrEmpty :: "inMemoryLimiter \<Rightarrow> Id \<Rightarrow> int list option" where
  "storedOrEmpty this ident =
     (case storage this ident of
        Some ts \<Rightarrow> Some ts
      | None \<Rightarrow> if inheritedProperty ident then None else Some [])"

text \<open>
  \<open>clear(id)\<close>.  For an inherited name, \<open>delete\<close> removes nothing and \<open>clearTimeout\<close>
  ignores the function it is handed, which is what removing a key that a map does not have
  amounts to.
\<close>

definition InMemoryRateLimiter_clear ::
  "inMemoryLimiter \<Rightarrow> Id \<Rightarrow> unit promise \<times> inMemoryLimiter" where
  "InMemoryRateLimiter_clear this ident =
     (Resolved (), this\<lparr> storage := (storage this)(ident := None),
                         ttls := (ttls this)(ident := None) \<rparr>)"

text \<open>The callback that \<open>getTimestamps\<close> hands to \<open>setTimeout\<close>.\<close>

definition timeoutCallback :: "inMemoryLimiter \<Rightarrow> Id \<Rightarrow> inMemoryLimiter" where
  "timeoutCallback this ident =
     this\<lparr> storage := (storage this)(ident := None), ttls := (ttls this)(ident := None) \<rparr>"

text \<open>
  The delay with which \<open>setTimeout\<close> arms a timer: Node replaces a delay that is below 1
  or above \<open>TIMEOUT_MAX\<close> milliseconds by 1.
\<close>

definition TIMEOUT_MAX :: Milliseconds where
  "TIMEOUT_MAX = 2147483647"

definition setTimeout_delay :: "Milliseconds \<Rightarrow> Milliseconds" where
  "setTimeout_delay after = (if 1 \<le> after \<and> after \<le> TIMEOUT_MAX then after else 1)"

text \<open>
  \<open>getTimestamps(id, addNewTimestamp)\<close>; \<open>currentTimestamp\<close> is its clock reading.
  The call of \<open>filter\<close> on a value that has none throws a \<open>TypeError\<close> before anything is
  stored, and the promise of the \<open>async\<close> method rejects with it.
\<close>

definition InMemoryRateLimiter_getTimestamps ::
  "inMemoryLimiter \<Rightarrow> Id \<Rightarrow> bool \<Rightarrow> Microseconds \<Rightarrow> int list promise \<times> inMemoryLimiter" where
  "InMemoryRateLimiter_getTimestamps this ident addNewTimestamp currentTimestamp =
     (let clearBefore = currentTimestamp - interval this in
      case storedOrEmpty this ident of
        None \<Rightarrow> (Rejected (TypeError ''(this.storage[id] || []).filter is not a function''), this)
      | Some existing \<Rightarrow>
          (let storedTimestamps = filter (\<lambda>t. t > clearBefore) existing
           in if addNewTimestamp then
                (Resolved (storedTimestamps @ [currentTimestamp]),
                 this\<lparr> ttls := (ttls this)(ident \<mapsto>
                          currentTimestamp +
                          millisecondsToMicroseconds
                            (setTimeout_delay (microsecondsToMilliseconds (interval this)))),
                       storage :=
                         (storage this)(ident \<mapsto> storedTimestamps @ [currentTimestamp]) \<rparr>)
              else
                (Resolved storedTimestamps,
                 this\<lparr> storage := (storage this)(ident \<mapsto> storedTimestamps) \<rparr>)))"


section \<open>Sequences of calls\<close>

text \<open>
  A public call carries the identifier and the clock readings the call makes, in the order
  it makes them: \<open>limit\<close> reads the clock once (in \<open>getTimestamps\<close>), \<open>wouldLimit\<close>
  twice (in \<open>getTimestamps\<close>, then for the candidate timestamp).
\<close>

datatype call =
    LimitWithInfo Id Microseconds
  | WouldLimitWithInfo Id Microseconds Microseconds
  | Limit Id Microseconds
  | WouldLimit Id Microseconds Microseconds
  | Clear Id

fun identOf :: "call \<Rightarrow> Id" where
  "identOf (LimitWithInfo ident now) = ident"
| "identOf (WouldLimitWithInfo ident now currentTimestamp) = ident"
| "identOf (Limit ident now) = ident"
| "identOf (WouldLimit ident now currentTimestamp) = ident"
| "identOf (Clear ident) = ident"

text \<open>What the caller of a public call observes.\<close>

datatype outcome =
    Info RateLimitInfo
  | Verdict bool
  | Cleared
  | Failed error
  | NoAnswer

definition settle :: "('a \<Rightarrow> outcome) \<Rightarrow> 'a promise \<times> 's \<Rightarrow> outcome \<times> 's" where
  "settle f r =
     (case r of
        (Resolved v, s) \<Rightarrow> (f v, s)
      | (Rejected err, s) \<Rightarrow> (Failed err, s)
      | (Unsettled, s) \<Rightarrow> (NoAnswer, s))"

fun InMemoryRateLimiter_call :: "inMemoryLimiter \<Rightarrow> call \<Rightarrow> outcome \<times> inMemoryLimiter" where
  "InMemoryRateLimiter_call this (LimitWithInfo ident now) =
     settle Info (limitWithInfo InMemoryRateLimiter_getTimestamps this ident now)"
| "InMemoryRateLimiter_call this (WouldLimitWithInfo ident now currentTimestamp) =
     settle Info
       (wouldLimitWithInfo InMemoryRateLimiter_getTimestamps this ident now currentTimestamp)"
| "InMemoryRateLimiter_call this (Limit ident now) =
     settle Verdict (limit InMemoryRateLimiter_getTimestamps this ident now)"
| "InMemoryRateLimiter_call this (WouldLimit ident now currentTimestamp) =
     settle Verdict
       (wouldLimit InMemoryRateLimiter_getTimestamps this ident now currentTimestamp)"
| "InMemoryRateLimiter_call this (Clear ident) =
     settle (\<lambda>_. Cleared) (InMemoryRateLimiter_clear this ident)"

text \<open>
  Between two calls the event loop may run the callback of a pending timeout.
  \<open>TimerFires ident t\<close> is that event, at clock value \<open>t\<close>; the callback does not read
  the clock.  The event loop runs the callback of a timeout only once it is due, and late
  at will: an event for an identifier whose timeout is not due at \<open>t\<close>, or that has none,
  does nothing.
\<close>

datatype event =
    Call call
  | TimerFires Id Microseconds

definition timerFires :: "inMemoryLimiter \<Rightarrow> Id \<Rightarrow> Microseconds \<Rightarrow> inMemoryLimiter" where
  "timerFires this ident t =
     (case ttls this ident of
        None \<Rightarrow> this
      | Some due \<Rightarrow> if due \<le> t then timeoutCallback this ident else this)"

fun InMemoryRateLimiter_run ::
  "inMemoryLimiter \<Rightarrow> event list \<Rightarrow> outcome list \<times> inMemoryLimiter" where
  "InMemoryRateLimiter_run this [] = ([], this)"
| "InMemoryRateLimiter_run this (Call c # evs) =
     (case InMemoryRateLimiter_call this c of
        (out, this') \<Rightarrow>
          (case InMemoryRateLimiter_run this' evs of (outs, this'') \<Rightarrow> (out # outs, this'')))"
| "InMemoryRateLimiter_run this (TimerFires ident t # evs) =
     InMemoryRateLimiter_run (timerFires this ident t) evs"

fun callsOf :: "event list \<Rightarrow> call list" where
  "callsOf [] = []"
| "callsOf (Call c # evs) = c # callsOf evs"
| "callsOf (TimerFires ident t # evs) = callsOf evs"

text \<open>The clock values of a sequence, in the order they are read.\<close>

fun readings :: "call \<Rightarrow> Microseconds list" where
  "readings (LimitWithInfo ident now) = [now]"
| "readings (WouldLimitWithInfo ident now currentTimestamp) = [now, currentTimestamp]"
| "readings (Limit ident now) = [now]"
| "readings (WouldLimit ident now currentTimestamp) = [now, currentTimestamp]"
| "readings (Clear ident) = []"

fun clock :: "event list \<Rightarrow> Microseconds list" where
  "clock [] = []"
| "clock (Call c # evs) = readings c @ clock evs"
| "clock (TimerFires ident t # evs) = t # clock evs"

text \<open>
  The attempts recorded for an identifier by a sequence of calls: the clock reading of
  every \<open>limit\<close> and \<open>limitWithInfo\<close> for it since its last \<open>clear\<close>, oldest first,
  whatever the verdict was.
\<close>

fun record_attempt :: "Id \<Rightarrow> Microseconds list \<Rightarrow> call \<Rightarrow> Microseconds list" where
  "record_attempt ident log (LimitWithInfo i now) = (if i = ident then log @ [now] else log)"
| "record_attempt ident log (Limit i now) = (if i = ident then log @ [now] else log)"
| "record_attempt ident log (Clear i) = (if i = ident then [] else log)"
| "record_attempt ident log (WouldLimitWithInfo i now currentTimestamp) = log"
| "record_attempt ident log (WouldLimit i now currentTimestamp) = log"

definition attempts :: "Id \<Rightarrow> call list \<Rightarrow> Microseconds list" where
  "attempts ident calls = foldl (record_attempt ident) [] calls"

text \<open>The timestamps of a list that lie in the window that trails \<open>now\<close>.\<close>

definition inWindow :: "'a limiter_scheme \<Rightarrow> Microseconds \<Rightarrow> int list \<Rightarrow> int list" where
  "inWindow this now ts = filter (\<lambda>t. t > now - interval this) ts"

section \<open>Numbers as decimal strings\<close>

text \<open>
  The shared store takes and returns scores as strings.  \<open>String(now)\<close> of an integer is
  its decimal numeral.  \<open>Number(s)\<close> is modelled on decimal integer numerals and on the
  empty string (which is 0); every other string is \<open>NaN\<close> here, which leaves out the
  fractions, exponents and blanks that JavaScript also reads.
\<close>

definition digitChar :: "nat \<Rightarrow> char" where
  "digitChar d = ''0123456789'' ! d"

function digits :: "nat \<Rightarrow> string" where
  "digits n = (if n < 10 then [digitChar n] else digits (n div 10) @ [digitChar (n mod 10)])"
  by pat_completeness auto
termination
  by (relation "measure (\<lambda>n. n)") auto

declare digits.simps [simp del]

definition String_js :: "int \<Rightarrow> string" where
  "String_js i = (if i < 0 then CHR ''-'' # digits (nat (- i)) else digits (nat i))"

definition digitValue :: "char \<Rightarrow> nat option" where
  "digitValue c =
     (let k = (of_char c :: nat) in if 48 \<le> k \<and> k \<le> 57 then Some (k - 48) else None)"

fun parseDigits :: "nat \<Rightarrow> string \<Rightarrow> nat option" where
  "parseDigits acc [] = Some acc"
| "parseDigits acc (c # cs) =
     (case digitValue c of None \<Rightarrow> None | Some d \<Rightarrow> parseDigits (10 * acc + d) cs)"

definition Number_js :: "string \<Rightarrow> int option" where
  "Number_js s =
     (case s of
        [] \<Rightarrow> Some 0
      | c # cs \<Rightarrow>
          if c = CHR ''-'' then
            (if cs = [] then None else map_option (\<lambda>n. - int n) (parseDigits 0 cs))
          else map_option int (parseDigits 0 s))"


section \<open>The shared store\<close>

text \<open>
  Modelled from the spec: the remote ordered-set collaborator, which is not part of the
  repository.  The spec asks of it remove-by-score-range, add-member-with-score,
  range-read-all-with-scores, set-expiry, delete, and the execution of a batch of such
  commands as one unit.  A key holds a set of members, each with a score, and may carry
  an expiry; a key whose set becomes empty no longer exists; a range read returns the
  members by ascending score, members of equal score in the order of their values.
  Scores are integers, printed in decimal.  The store's time is the clock reading the
  caller hands over with the batch.
\<close>

record zset =
  members :: "(string \<times> int) list"
  expireAt :: "Microseconds option"

type_synonym redis = "string \<rightharpoonup> zset"

datatype command =
    ZREMRANGEBYSCORE string int int
  | ZADD string string string
  | ZRANGE string int int bool
  | EXPIRE string Seconds
  | DEL string

datatype reply =
    RNull
  | RBulk string
  | RInteger int
  | RMulti "reply list"
  | RError string

definition storeMembers :: "redis \<Rightarrow> string \<Rightarrow> (string \<times> int) list" where
  "storeMembers db key = (case db key of None \<Rightarrow> [] | Some z \<Rightarrow> members z)"

definition setMembers :: "redis \<Rightarrow> string \<Rightarrow> (string \<times> int) list \<Rightarrow> redis" where
  "setMembers db key ms =
     (if ms = [] then db(key := None)
      else db(key \<mapsto> \<lparr> members = ms,
                       expireAt = (case db key of None \<Rightarrow> None | Some z \<Rightarrow> expireAt z) \<rparr>))"

text \<open>Both bounds of the score range are inclusive.\<close>

definition zremrangebyscore :: "string \<Rightarrow> int \<Rightarrow> int \<Rightarrow> redis \<Rightarrow> reply \<times> redis" where
  "zremrangebyscore key lo hi db =
     (let old = storeMembers db key;
          kept = filter (\<lambda>(m, score). \<not> (lo \<le> score \<and> score \<le> hi)) old
      in (RInteger (int (length old) - int (length kept)), setMembers db key kept))"

text \<open>Adding a member that the set already holds replaces its score.\<close>

definition zadd :: "string \<Rightarrow> string \<Rightarrow> string \<Rightarrow> redis \<Rightarrow> reply \<times> redis" where
  "zadd key score member db =
     (case Number_js score of
        None \<Rightarrow> (RError ''ERR value is not a valid float'', db)
      | Some sc \<Rightarrow>
          (let old = storeMembers db key;
               others = filter (\<lambda>(m, s). m \<noteq> member) old
           in (RInteger (int (length others) + 1 - int (length old)),
               setMembers db key (others @ [(member, sc)]))))"

definition zrange :: "string \<Rightarrow> int \<Rightarrow> int \<Rightarrow> bool \<Rightarrow> redis \<Rightarrow> reply \<times> redis" where
  "zrange key start stop withScores db =
     (let ordered = sort_key (\<lambda>(m, score). (score, m)) (storeMembers db key);
          n = int (length ordered);
          lo = (if start < 0 then max 0 (n + start) else start);
          hi = (if stop < 0 then n + stop else min stop (n - 1));
          range = take (nat (hi - lo + 1)) (drop (nat lo) ordered)
      in (RMulti (concat (map (\<lambda>(m, score).
                    if withScores then [RBulk m, RBulk (String_js score)] else [RBulk m])
                  range)),
          db))"

definition expire :: "Microseconds \<Rightarrow> string \<Rightarrow> Seconds \<Rightarrow> redis \<Rightarrow> reply \<times> redis" where
  "expire time key seconds db =
     (case db key of
        None \<Rightarrow> (RInteger 0, db)
      | Some z \<Rightarrow> (RInteger 1, db(key \<mapsto> z\<lparr> expireAt := Some (time + 1000000 * seconds) \<rparr>)))"

definition del :: "string \<Rightarrow> redis \<Rightarrow> reply \<times> redis" where
  "del key db = (RInteger (if db key = None then 0 else 1), db(key := None))"

fun runCommand :: "Microseconds \<Rightarrow> command \<Rightarrow> redis \<Rightarrow> reply \<times> redis" where
  "runCommand time (ZREMRANGEBYSCORE key lo hi) db = zremrangebyscore key lo hi db"
| "runCommand time (ZADD key score member) db = zadd key score member db"
| "runCommand time (ZRANGE key start stop withScores) db = zrange key start stop withScores db"
| "runCommand time (EXPIRE key seconds) db = expire time key seconds db"
| "runCommand time (DEL key) db = del key db"

fun runBatch :: "Microseconds \<Rightarrow> command list \<Rightarrow> redis \<Rightarrow> reply list \<times> redis" where
  "runBatch time [] db = ([], db)"
| "runBatch time (c # cs) db =
     (case runCommand time c db of
        (r, db') \<Rightarrow> (case runBatch time cs db' of (rs, db'') \<Rightarrow> (r # rs, db'')))"

text \<open>A key whose expiry has passed is gone.\<close>

definition dropExpired :: "Microseconds \<Rightarrow> redis \<Rightarrow> redis" where
  "dropExpired time db =
     (\<lambda>key. case db key of
               None \<Rightarrow> None
             | Some z \<Rightarrow>
                 (case expireAt z of
                    None \<Rightarrow> Some z
                  | Some due \<Rightarrow> if due \<le> time then None else Some z))"

text \<open>
  The two client libraries hand the replies of a batch to the callback in different shapes:
  one as the list of replies, the other as a list of pairs of an error and a reply.  The
  modelled store always answers, so the error handed to the callback is \<open>None\<close>; the
  callback keeps its error branch.
\<close>

datatype clientKind = NodeRedis | IORedis

record redisClient =
  kind :: clientKind
  store :: redis

definition exec ::
  "redisClient \<Rightarrow> Microseconds \<Rightarrow> command list \<Rightarrow>
   (error option \<times> reply list) \<times> redisClient" where
  "exec cl time batch =
     (case runBatch time batch (dropExpired time (store cl)) of
        (replies, db') \<Rightarrow>
          ((None,
            case kind cl of
              NodeRedis \<Rightarrow> replies
            | IORedis \<Rightarrow> map (\<lambda>r. RMulti [RNull, r]) replies),
           cl\<lparr> store := db' \<rparr>))"

section \<open>The limiter on the shared store\<close>

text \<open>
  The instance holds the client, and through it the store the client is connected to.
\<close>

record redisLimiter = limiter +
  client :: redisClient
  namespace :: string
  ttl :: Seconds

definition RedisRateLimiter ::
  "redisClient \<Rightarrow> string \<Rightarrow> RateLimiterOptions \<Rightarrow> error + redisLimiter" where
  "RedisRateLimiter cl ns baseOptions =
     (case RateLimiter baseOptions of
        Inl err \<Rightarrow> Inl err
      | Inr base \<Rightarrow>
          Inr \<lparr> interval = interval base, maxInInterval = maxInInterval base,
                minDifference = minDifference base,
                client = cl, namespace = ns,
                ttl = microsecondsToSeconds (interval base) \<rparr>)"

definition makeKey :: "redisLimiter \<Rightarrow> Id \<Rightarrow> string" where
  "makeKey this ident = namespace this @ ident"

definition RedisRateLimiter_clear ::
  "redisLimiter \<Rightarrow> Id \<Rightarrow> unit promise \<times> redisLimiter" where
  "RedisRateLimiter_clear this ident =
     (let key = makeKey this ident
      in (Resolved (),
          this\<lparr> client := (client this)\<lparr> store := snd (del key (store (client this))) \<rparr> \<rparr>))"

text \<open>\<open>xs[i]\<close> for a list of any element type.\<close>

definition item :: "'a list \<Rightarrow> nat \<Rightarrow> 'a option" where
  "item xs i = (if i < length xs then Some (xs ! i) else None)"

text \<open>
  The three methods below are synchronous; \<open>Inl\<close> is the exception one of them throws.

  \<open>getZRangeResult\<close>: element 1 of the reply if that is an array, else the reply
  itself.  Reading element 1 of \<open>null\<close> throws; on a string, a number or an error object
  the read finds no array, and the value is returned as it is.
\<close>

definition getZRangeResult :: "reply \<Rightarrow> error + reply" where
  "getZRangeResult zRangeOutput =
     (case zRangeOutput of
        RNull \<Rightarrow> Inl (TypeError ''Cannot read properties of null'')
      | RMulti xs \<Rightarrow>
          (case item xs 1 of
             Some (RMulti ys) \<Rightarrow> Inr (RMulti ys)
           | _ \<Rightarrow> Inr (RMulti xs))
      | _ \<Rightarrow> Inr zRangeOutput)"

text \<open>\<open>Number(e)\<close>; \<open>None\<close> is \<open>NaN\<close>.\<close>

definition Number_reply :: "reply \<Rightarrow> int option" where
  "Number_reply r = (case r of RBulk s \<Rightarrow> Number_js s | RInteger n \<Rightarrow> Some n | _ \<Rightarrow> None)"

text \<open>
  \<open>zRangeResult.filter((e, i) => i % 2).map(Number)\<close>; only an array has a
  \<open>filter\<close>.
\<close>

definition extractTimestampsFromZRangeResult :: "reply \<Rightarrow> error + int option list" where
  "extractTimestampsFromZRangeResult zRangeResult =
     (case zRangeResult of
        RMulti xs \<Rightarrow>
          Inr (map Number_reply
                 (map snd (filter (\<lambda>(i, e). i mod 2 \<noteq> 0) (enumerate 0 xs))))
      | _ \<Rightarrow> Inl (TypeError ''zRangeResult.filter is not a function''))"

text \<open>
  The callback that \<open>getTimestamps\<close> hands to \<open>batch.exec\<close>, and what becomes of the
  promise whose \<open>resolve\<close> and \<open>reject\<close> it holds.  The callback runs after the
  executor of the promise has returned, so an exception thrown in it reaches neither
  \<open>resolve\<close> nor \<open>reject\<close>: the promise never settles.

  The decision engine is modelled on lists of numbers.  Where the code resolves with a list
  that has a \<open>NaN\<close> in it, which takes a score that is not a number, the model ends the
  call with an error of the store instead.
\<close>

definition execCallback :: "bool \<Rightarrow> error option \<Rightarrow> reply list \<Rightarrow> int list promise" where
  "execCallback addNewTimestamp err result =
     (case err of
        Some e \<Rightarrow> Rejected e
      | None \<Rightarrow>
          (case item result (if addNewTimestamp then 2 else 1) of
             None \<Rightarrow> Unsettled
           | Some zRangeOutput \<Rightarrow>
               (case getZRangeResult zRangeOutput of
                  Inl thrown \<Rightarrow> Unsettled
                | Inr zRangeResult \<Rightarrow>
                    (case extractTimestampsFromZRangeResult zRangeResult of
                       Inl thrown \<Rightarrow> Unsettled
                     | Inr timestamps \<Rightarrow>
                         (case those timestamps of
                            None \<Rightarrow> Rejected (CollaboratorError ''score is not a number'')
                          | Some ts \<Rightarrow> Resolved ts)))))"

text \<open>
  \<open>getTimestamps(id, addNewTimestamp)\<close>; the environment is the clock reading \<open>now\<close>
  and the token that \<open>uuid.v4()\<close> returns.
\<close>

definition RedisRateLimiter_getTimestamps ::
  "redisLimiter \<Rightarrow> Id \<Rightarrow> bool \<Rightarrow> Microseconds \<times> string \<Rightarrow>
   int list promise \<times> redisLimiter" where
  "RedisRateLimiter_getTimestamps this ident addNewTimestamp env =
     (case env of (now, uuid) \<Rightarrow>
        (let key = makeKey this ident;
             clearBefore = now - interval this;
             batch = [ZREMRANGEBYSCORE key 0 clearBefore]
                     @ (if addNewTimestamp then [ZADD key (String_js now) uuid] else [])
                     @ [ZRANGE key 0 (- 1) True, EXPIRE key (ttl this)]
         in case exec (client this) now batch of
              ((err, result), cl') \<Rightarrow>
                (execCallback addNewTimestamp err result, this\<lparr> client := cl' \<rparr>)))"

text \<open>A call on the shared store, with the token its \<open>getTimestamps\<close> would draw.\<close>

fun RedisRateLimiter_call :: "redisLimiter \<Rightarrow> call \<times> string \<Rightarrow> outcome \<times> redisLimiter" where
  "RedisRateLimiter_call this (LimitWithInfo ident now, uuid) =
     settle Info (limitWithInfo RedisRateLimiter_getTimestamps this ident (now, uuid))"
| "RedisRateLimiter_call this (WouldLimitWithInfo ident now currentTimestamp, uuid) =
     settle Info
       (wouldLimitWithInfo RedisRateLimiter_getTimestamps this ident (now, uuid) currentTimestamp)"
| "RedisRateLimiter_call this (Limit ident now, uuid) =
     settle Verdict (limit RedisRateLimiter_getTimestamps this ident (now, uuid))"
| "RedisRateLimiter_call this (WouldLimit ident now currentTimestamp, uuid) =
     settle Verdict
       (wouldLimit RedisRateLimiter_getTimestamps this ident (now, uuid) currentTimestamp)"
| "RedisRateLimiter_call this (Clear ident, uuid) =
     settle (\<lambda>_. Cleared) (RedisRateLimiter_clear this ident)"

fun RedisRateLimiter_run ::
  "redisLimiter \<Rightarrow> (call \<times> string) list \<Rightarrow> outcome list \<times> redisLimiter" where
  "RedisRateLimiter_run this [] = ([], this)"
| "RedisRateLimiter_run this (c # cs) =
     (case RedisRateLimiter_call this c of
        (out, this') \<Rightarrow>
          (case RedisRateLimiter_run this' cs of (outs, this'') \<Rightarrow> (out # outs, this'')))"

section \<open>Accepted options\<close>

text \<open>
  The spec's invariant of a window configuration, on the options as they are passed:
  \<open>interval > 0\<close>, \<open>maxInInterval > 0\<close>, \<open>minDifference >= 0\<close>, where a missing
  \<open>minDifference\<close> counts as 0.
\<close>

definition accepted :: "RateLimiterOptions \<Rightarrow> bool" where
  "accepted options \<longleftrightarrow>
     (case opt_interval options of None \<Rightarrow> False | Some i \<Rightarrow> 0 < i) \<and>
     (case opt_maxInInterval options of None \<Rightarrow> False | Some m \<Rightarrow> 0 < m) \<and>
     (case opt_minDifference options of None \<Rightarrow> True | Some d \<Rightarrow> 0 \<le> d)"


section \<open>The sliding window over the recorded attempts\<close>

text \<open>
  The spec's reading of a limiter, against which both stores are compared: the verdict of
  a call is the decision engine's, on the attempts recorded for the identifier that lie in
  the window trailing the call's clock reading, followed by the current timestamp.
\<close>

definition config :: "'a limiter_scheme \<Rightarrow> limiter" where
  "config this = \<lparr> interval = interval this, maxInInterval = maxInInterval this,
                   minDifference = minDifference this \<rparr>"

fun expected :: "limiter \<Rightarrow> call list \<Rightarrow> call \<Rightarrow> outcome" where
  "expected cfg history (LimitWithInfo ident now) =
     Info (calculateInfo cfg (inWindow cfg now (attempts ident history) @ [now]) False)"
| "expected cfg history (WouldLimitWithInfo ident now currentTimestamp) =
     Info (calculateInfo cfg
             (inWindow cfg now (attempts ident history) @ [currentTimestamp]) True)"
| "expected cfg history (Limit ident now) =
     Verdict (blocked
       (calculateInfo cfg (inWindow cfg now (attempts ident history) @ [now]) False))"
| "expected cfg history (WouldLimit ident now currentTimestamp) =
     Verdict (blocked
       (calculateInfo cfg
          (inWindow cfg now (attempts ident history) @ [currentTimestamp]) True))"
| "expected cfg history (Clear ident) = Cleared"

fun expectedOutcomes :: "limiter \<Rightarrow> call list \<Rightarrow> call list \<Rightarrow> outcome list" where
  "expectedOutcomes cfg history [] = []"
| "expectedOutcomes cfg history (c # cs) =
     expected cfg history c # expectedOutcomes cfg (history @ [c]) cs"

text \<open>The list stored for an identifier; none is the empty list, as \<open>|| []\<close> reads it.\<close>

definition stored :: "inMemoryLimiter \<Rightarrow> Id \<Rightarrow> int list" where
  "stored this ident = (case storage this ident of None \<Rightarrow> [] | Some ts \<Rightarrow> ts)"

text \<open>
  What the in-memory state keeps of a history of calls, when the latest clock value is
  \<open>c\<close>, for the identifiers that name no inherited property: inside the window trailing
  \<open>c\<close> the stored list is the list of recorded attempts; a pending timeout falls due only
  after every recorded attempt has left the window; no attempt lies in the future.
\<close>

definition memInv :: "inMemoryLimiter \<Rightarrow> call list \<Rightarrow> Microseconds \<Rightarrow> bool" where
  "memInv this history c \<longleftrightarrow>
     (\<forall>ident. \<not> inheritedProperty ident \<longrightarrow>
        inWindow this c (stored this ident) = inWindow this c (attempts ident history)) \<and>
     (\<forall>ident due. \<not> inheritedProperty ident \<longrightarrow> ttls this ident = Some due \<longrightarrow>
        (\<forall>t \<in> set (attempts ident history). t + interval this \<le> due)) \<and>
     (\<forall>ident. \<forall>t \<in> set (attempts ident history). t \<le> c)"

text \<open>
  Two in-memory states that no call reading the clock at \<open>now\<close> or later tells apart.
\<close>

definition sameFrom :: "Microseconds \<Rightarrow> inMemoryLimiter \<Rightarrow> inMemoryLimiter \<Rightarrow> bool" where
  "sameFrom now a b \<longleftrightarrow>
     config a = config b \<and> ttls a = ttls b \<and>
     (\<forall>ident. storedOrEmpty a ident = None \<longleftrightarrow> storedOrEmpty b ident = None) \<and>
     (\<forall>ident. inWindow a now (stored a ident) = inWindow a now (stored b ident))"

text \<open>Every stored list ascends and holds nothing later than the clock value \<open>c\<close>.\<close>

definition ascending :: "inMemoryLimiter \<Rightarrow> Microseconds \<Rightarrow> bool" where
  "ascending this c \<longleftrightarrow>
     (\<forall>ident. sorted (stored this ident) \<and> (\<forall>t \<in> set (stored this ident). t \<le> c))"

text \<open>The reply to a full range read with scores: member and score alternate.\<close>

definition flat :: "(string \<times> int) list \<Rightarrow> reply list" where
  "flat ps = concat (map (\<lambda>(m, score). [RBulk m, RBulk (String_js score)]) ps)"

text \<open>
  The members of an identifier's key after \<open>getTimestamps\<close>, from those before it:
  the scores between 0 and \<open>now - interval\<close>, both included, are removed, then the
  new member is added.
\<close>

definition nextMembers ::
  "'a limiter_scheme \<Rightarrow> bool \<Rightarrow> Microseconds \<Rightarrow> string \<Rightarrow> (string \<times> int) list \<Rightarrow>
   (string \<times> int) list" where
  "nextMembers this addNew now uuid old =
     (let kept = filter (\<lambda>(m, score). \<not> (0 \<le> score \<and> score \<le> now - interval this)) old
      in if addNew then filter (\<lambda>(m, s). m \<noteq> uuid) kept @ [(uuid, now)] else kept)"

text \<open>The members and the expiry of an identifier's key.\<close>

definition keyMembers :: "redisLimiter \<Rightarrow> Id \<Rightarrow> (string \<times> int) list" where
  "keyMembers this ident = storeMembers (store (client this)) (makeKey this ident)"

text \<open>The members of an identifier's key once the keys expired at \<open>now\<close> are gone.\<close>

definition afterDrop :: "redisLimiter \<Rightarrow> Microseconds \<Rightarrow> Id \<Rightarrow> (string \<times> int) list" where
  "afterDrop this now ident =
     storeMembers (dropExpired now (store (client this))) (makeKey this ident)"

definition keyDue :: "redisLimiter \<Rightarrow> Id \<Rightarrow> Microseconds option" where
  "keyDue this ident =
     (case store (client this) (makeKey this ident) of None \<Rightarrow> None | Some z \<Rightarrow> expireAt z)"

text \<open>
  What the shared store keeps of a history of calls, when the latest clock value is \<open>c\<close>
  and \<open>used\<close> are the tokens drawn so far: inside the window trailing \<open>c\<close> the
  ascending scores of the identifier's key are the recorded attempts; a key expires only
  after every recorded attempt has left the window; the recorded attempts ascend, none is
  negative or in the future; no score is negative, and every member is a token drawn
  before.
\<close>

definition redisInv :: "redisLimiter \<Rightarrow> call list \<Rightarrow> string set \<Rightarrow> Microseconds \<Rightarrow> bool" where
  "redisInv this history used c \<longleftrightarrow>
     interval this \<le> 1000000 * ttl this \<and>
     (\<forall>ident. inWindow this c (sort (map snd (keyMembers this ident))) =
                inWindow this c (attempts ident history)) \<and>
     (\<forall>ident due. keyDue this ident = Some due \<longrightarrow>
        (\<forall>t \<in> set (attempts ident history). t + interval this \<le> due)) \<and>
     (\<forall>ident. sorted (attempts ident history) \<and>
        (\<forall>t \<in> set (attempts ident history). 0 \<le> t \<and> t \<le> c)) \<and>
     (\<forall>ident. \<forall>(m, score) \<in> set (keyMembers this ident). 0 \<le> score \<and> m \<in> used)"

section \<open>Properties of the decision engine\<close>

lemma RateLimiter_Inr:
  "RateLimiter options = Inr this \<Longrightarrow>
     0 < interval this \<and> 0 < maxInInterval this \<and> 0 \<le> minDifference this"
  by (auto simp: RateLimiter_def Let_def millisecondsToMicroseconds_def
           split: if_splits option.splits)

lemma ceil_bounds:
  "us \<le> 1000 * microsecondsToMilliseconds us \<and> 1000 * microsecondsToMilliseconds us < us + 1000"
proof -
  have "1000 * ((- us) div 1000) + (- us) mod 1000 = - us" by simp
  moreover have "0 \<le> (- us) mod 1000" and "(- us) mod 1000 < 1000" by simp_all
  ultimately show ?thesis unfolding microsecondsToMilliseconds_def by linarith
qed

lemma at_last:
  "timestamps \<noteq> [] \<Longrightarrow> at timestamps (int (length timestamps) - 1) = Some (last timestamps)"
  by (cases timestamps rule: rev_cases) (auto simp: at_def nth_append)

lemma windowWait_Some:
  assumes "timestamps \<noteq> []" and "0 < maxInInterval this"
  shows "windowWait this timestamps =
           Some (timestamps ! nat (max 0 (int (length timestamps) - maxInInterval this))
                 - last timestamps + interval this)"
proof -
  have "length timestamps > 0" using assms(1) by simp
  then have "at timestamps (max 0 (int (length timestamps) - maxInInterval this)) =
        Some (timestamps ! nat (max 0 (int (length timestamps) - maxInInterval this)))"
    using assms(2) by (auto simp: at_def)
  then show ?thesis
    using at_last [OF assms(1)] by (simp add: windowWait_def Let_def)
qed

lemma calculateInfo_would_wait:
  "millisecondsUntilAllowed (calculateInfo this timestamps True) =
     map_option microsecondsToMilliseconds (windowWait this timestamps)"
  by (simp add: calculateInfo_def Let_def)

text \<open>
  Claim C2.  In committed mode, on a non-empty list whose last element is the current
  timestamp and for a configuration the constructor accepts: below \<open>maxInInterval\<close>
  timestamps the wait is \<open>minDifference\<close> alone (so 0 when \<open>minDifference\<close> is 0); from
  \<open>maxInInterval\<close> timestamps on it is the larger of \<open>minDifference\<close> and
  \<open>timestamps[count - maxInInterval] - current + interval\<close>; the result is that number
  of microseconds rounded up to whole milliseconds.
\<close>

theorem committed_wait:
  assumes "0 < maxInInterval this" and "0 \<le> minDifference this" and "timestamps \<noteq> []"
  shows "let count = int (length timestamps);
             us = (if count < maxInInterval this then minDifference this
                   else max (minDifference this)
                          (timestamps ! nat (count - maxInInterval this)
                           - last timestamps + interval this));
             ms = microsecondsToMilliseconds us
         in millisecondsUntilAllowed (calculateInfo this timestamps False) = Some ms \<and>
            us \<le> 1000 * ms \<and> 1000 * ms < us + 1000 \<and>
            (count < maxInInterval this \<and> minDifference this = 0 \<longrightarrow> ms = 0)"
proof (cases "int (length timestamps) < maxInInterval this")
  case True
  have "microsecondsToMilliseconds 0 = 0"
    by (simp add: microsecondsToMilliseconds_def)
  with True show ?thesis
    using ceil_bounds [of "minDifference this"] assms(2)
    by (simp add: calculateInfo_def Let_def max_def)
next
  case False
  then have "max 0 (int (length timestamps) - maxInInterval this) =
             int (length timestamps) - maxInInterval this" by simp
  with False show ?thesis
    using windowWait_Some [OF assms(3) assms(1)]
      ceil_bounds [of "max (minDifference this)
                           (timestamps ! nat (int (length timestamps) - maxInInterval this)
                            - last timestamps + interval this)"]
    by (simp add: calculateInfo_def Let_def)
qed

theorem committed_wait_witness:
  "millisecondsUntilAllowed
     (calculateInfo \<lparr>interval = 10000, maxInInterval = 3, minDifference = 2000\<rparr>
        [0, 4000, 5000, 8000] False) = Some 6 \<and>
   millisecondsUntilAllowed
     (calculateInfo \<lparr>interval = 10000, maxInInterval = 3, minDifference = 2000\<rparr>
        [0] False) = Some 2"
proof -
  let ?c = "\<lparr>interval = 10000, maxInInterval = 3, minDifference = 2000\<rparr> :: limiter"
  have h: "0 < maxInInterval ?c" by simp
  have m: "0 \<le> minDifference ?c" by simp
  have n1: "[0, 4000, 5000, 8000] \<noteq> ([] :: int list)" by simp
  have n2: "[0] \<noteq> ([] :: int list)" by simp
  show ?thesis
    using committed_wait [OF h m n1] committed_wait [OF h m n2]
    by (simp add: Let_def microsecondsToMilliseconds_def)
qed

text \<open>
  Claim C3, as stated, fails: with \<open>minDifference\<close> of 2 ms and a last timestamp that
  precedes the one before it, \<open>blockedDueToMinDifference\<close> is true.
\<close>

theorem minDifference_negative_counterexample:
  "0 < minDifference \<lparr>interval = 10000, maxInInterval = 3, minDifference = 2000\<rparr> \<and>
   last [5000, 4000 :: int] < [5000, 4000] ! 0 \<and>
   blockedDueToMinDifference
     (calculateInfo \<lparr>interval = 10000, maxInInterval = 3, minDifference = 2000\<rparr>
        [5000, 4000] True) = True"
  by (simp add: calculateInfo_def Let_def at_def)

text \<open>
  Claim C3, amended.  \<open>blockedDueToMinDifference\<close> is true exactly when \<open>minDifference\<close>
  is positive, a previous timestamp exists and \<open>current - previous < minDifference\<close>.  A
  negative difference is below every positive \<open>minDifference\<close>, so it sets the flag; with
  \<open>minDifference\<close> 0 the flag is always false.
\<close>

theorem minDifference_check:
  "(blockedDueToMinDifference (calculateInfo this timestamps isWould) \<longleftrightarrow>
      0 < minDifference this \<and> 2 \<le> length timestamps \<and>
      last timestamps - timestamps ! (length timestamps - 2) < minDifference this) \<and>
   (0 < minDifference this \<and> 2 \<le> length timestamps \<and>
      last timestamps < timestamps ! (length timestamps - 2) \<longrightarrow>
      blockedDueToMinDifference (calculateInfo this timestamps isWould)) \<and>
   (minDifference this = 0 \<longrightarrow>
      \<not> blockedDueToMinDifference (calculateInfo this timestamps isWould))"
proof -
  have iff: "blockedDueToMinDifference (calculateInfo this timestamps isWould) \<longleftrightarrow>
      0 < minDifference this \<and> 2 \<le> length timestamps \<and>
      last timestamps - timestamps ! (length timestamps - 2) < minDifference this"
  proof (cases "2 \<le> length timestamps")
    case True
    then have ne: "timestamps \<noteq> []" by auto
    from True have "at timestamps (int (length timestamps) - 2) =
        Some (timestamps ! (length timestamps - 2))"
      by (auto simp: at_def nat_diff_distrib')
    then show ?thesis
      using True at_last [OF ne] by (simp add: calculateInfo_def Let_def)
  next
    case False
    then have "at timestamps (int (length timestamps) - 2) = None"
      by (auto simp: at_def)
    then show ?thesis
      using False by (simp add: calculateInfo_def Let_def)
  qed
  show ?thesis
    unfolding iff by auto
qed

theorem minDifference_check_witness:
  "blockedDueToMinDifference
     (calculateInfo \<lparr>interval = 10000, maxInInterval = 3, minDifference = 2000\<rparr>
        [9000, 8000] False) \<and>
   \<not> blockedDueToMinDifference
     (calculateInfo \<lparr>interval = 10000, maxInInterval = 3, minDifference = 0\<rparr>
        [9000, 8000] False)"
  using minDifference_check
          [of "\<lparr>interval = 10000, maxInInterval = 3, minDifference = 2000\<rparr>"
              "[9000, 8000]" False]
        minDifference_check
          [of "\<lparr>interval = 10000, maxInInterval = 3, minDifference = 0\<rparr>"
              "[9000, 8000]" False]
  by simp

text \<open>
  Claim C4.  In speculative mode the wait is always
  \<open>timestamps[max(0, count - maxInInterval)] - current + interval\<close> rounded up to whole
  milliseconds, that is, the least whole number of milliseconds that is not below that
  number of microseconds, where \<open>timestamps\<close> is the list \<open>getTimestamps\<close> returned with
  the candidate appended: whether or not the window is full, with no maximum against
  \<open>minDifference\<close> and no floor at zero.
\<close>

theorem speculative_wait:
  assumes "getTimestamps this ident False env = (Resolved existingTimestamps, this')"
      and "0 < maxInInterval this'"
  shows "let timestamps = existingTimestamps @ [currentTimestamp];
             count = int (length timestamps);
             us = timestamps ! nat (max 0 (count - maxInInterval this'))
                  - currentTimestamp + interval this';
             ms = microsecondsToMilliseconds us
         in wouldLimitWithInfo getTimestamps this ident env currentTimestamp =
              (Resolved (calculateInfo this' timestamps True), this') \<and>
            millisecondsUntilAllowed (calculateInfo this' timestamps True) = Some ms \<and>
            us \<le> 1000 * ms \<and> 1000 * ms < us + 1000"
proof -
  have ne: "existingTimestamps @ [currentTimestamp] \<noteq> []" by simp
  have "wouldLimitWithInfo getTimestamps this ident env currentTimestamp =
          (Resolved (calculateInfo this' (existingTimestamps @ [currentTimestamp]) True), this')"
    by (simp add: wouldLimitWithInfo_def assms(1))
  moreover have "last (existingTimestamps @ [currentTimestamp]) = currentTimestamp" by simp
  ultimately show ?thesis
    using ceil_bounds
            [of "(existingTimestamps @ [currentTimestamp]) !
                   nat (max 0 (int (length (existingTimestamps @ [currentTimestamp]))
                               - maxInInterval this'))
                 - currentTimestamp + interval this'"]
    unfolding Let_def calculateInfo_would_wait windowWait_Some [OF ne assms(2)]
    by simp
qed

theorem speculative_wait_witness:
  "wouldLimitWithInfo InMemoryRateLimiter_getTimestamps
     \<lparr>interval = 10000, maxInInterval = 3, minDifference = 2000,
      storage = [''a'' \<mapsto> [8000]], ttls = [''a'' \<mapsto> 18000]\<rparr> ''a'' 17000 17500 =
   (Resolved \<lparr>blocked = False, blockedDueToCount = False, blockedDueToMinDifference = False,
              millisecondsUntilAllowed = Some 1, actionsRemaining = 1\<rparr>,
    \<lparr>interval = 10000, maxInInterval = 3, minDifference = 2000,
      storage = [''a'' \<mapsto> [8000]], ttls = [''a'' \<mapsto> 18000]\<rparr>) \<and>
   8000 - 17500 + 10000 = (500 :: int) \<and>
   wouldLimitWithInfo InMemoryRateLimiter_getTimestamps
     \<lparr>interval = 10000, maxInInterval = 3, minDifference = 2000,
      storage = [''a'' \<mapsto> [8000]], ttls = [''a'' \<mapsto> 18000]\<rparr> ''a'' 17000 19500 =
   (Resolved \<lparr>blocked = False, blockedDueToCount = False, blockedDueToMinDifference = False,
              millisecondsUntilAllowed = Some (- 1), actionsRemaining = 1\<rparr>,
    \<lparr>interval = 10000, maxInInterval = 3, minDifference = 2000,
      storage = [''a'' \<mapsto> [8000]], ttls = [''a'' \<mapsto> 18000]\<rparr>) \<and>
   8000 - 19500 + 10000 = (- 1500 :: int)"
proof -
  let ?m = "\<lparr>interval = 10000, maxInInterval = 3, minDifference = 2000,
      storage = [''a'' \<mapsto> [8000]], ttls = [''a'' \<mapsto> 18000]\<rparr>"
  have g: "InMemoryRateLimiter_getTimestamps ?m ''a'' False 17000 = (Resolved [8000], ?m)"
    by (simp add: InMemoryRateLimiter_getTimestamps_def storedOrEmpty_def Let_def)
  have h: "0 < maxInInterval ?m" by simp
  show ?thesis
    using speculative_wait
            [of InMemoryRateLimiter_getTimestamps ?m "''a''" 17000 "[8000]" ?m 17500, OF g h]
          speculative_wait
            [of InMemoryRateLimiter_getTimestamps ?m "''a''" 17000 "[8000]" ?m 19500, OF g h]
    by (simp add: Let_def calculateInfo_def at_def microsecondsToMilliseconds_def)
qed
section \<open>The in-memory limiter against the sliding window\<close>

lemma inWindow_append [simp]:
  "inWindow this now (xs @ ys) = inWindow this now xs @ inWindow this now ys"
  by (simp add: inWindow_def)

lemma inWindow_Nil [simp]: "inWindow this now [] = []"
  by (simp add: inWindow_def)

lemma inWindow_later:
  "c \<le> now \<Longrightarrow> inWindow this now (inWindow this c xs) = inWindow this now xs"
  by (induction xs) (auto simp: inWindow_def)

lemma inWindow_config [simp]: "inWindow (config this) = inWindow this"
  by (simp add: fun_eq_iff inWindow_def config_def)

lemma config_config [simp]: "config (config this) = config this"
  by (simp add: config_def)

lemma inWindow_eq_later:
  assumes "inWindow this c xs = inWindow this c ys" and "c \<le> now"
  shows "inWindow this now xs = inWindow this now ys"
  using inWindow_later [OF assms(2), of this xs] inWindow_later [OF assms(2), of this ys] assms(1)
  by simp

lemma config_fields [simp]:
  "interval (config this) = interval this"
  "maxInInterval (config this) = maxInInterval this"
  "minDifference (config this) = minDifference this"
  by (simp_all add: config_def)

lemma windowWait_config [simp]: "windowWait (config this) = windowWait this"
  by (simp add: fun_eq_iff windowWait_def cong: option.case_cong prod.case_cong)

lemma calculateInfo_config [simp]: "calculateInfo (config this) = calculateInfo this"
  by (simp add: fun_eq_iff calculateInfo_def Let_def cong: option.case_cong)

lemma calculateInfo_cong:
  "config a = config b \<Longrightarrow> calculateInfo a = calculateInfo b"
  using calculateInfo_config [of a] calculateInfo_config [of b] by simp

lemma inWindow_cong: "config a = config b \<Longrightarrow> inWindow a = inWindow b"
  using inWindow_config [of a] inWindow_config [of b] by simp

lemma storedOrEmpty_plain:
  "\<not> inheritedProperty ident \<Longrightarrow> storedOrEmpty this ident = Some (stored this ident)"
  by (simp add: storedOrEmpty_def stored_def split: option.splits)

lemma storedOrEmpty_Some:
  "storedOrEmpty this ident = Some xs \<Longrightarrow> xs = stored this ident"
  by (auto simp: storedOrEmpty_def stored_def split: option.splits if_splits)

lemma storedOrEmpty_None:
  "storedOrEmpty this ident = None \<longleftrightarrow> inheritedProperty ident \<and> storage this ident = None"
  by (simp add: storedOrEmpty_def split: option.splits)

lemma getTimestamps_thrown:
  "storedOrEmpty this ident = None \<Longrightarrow>
     InMemoryRateLimiter_getTimestamps this ident addNew now =
       (Rejected (TypeError ''(this.storage[id] || []).filter is not a function''), this)"
  by (simp add: InMemoryRateLimiter_getTimestamps_def)

lemma InMemoryRateLimiter_getTimestamps_eq:
  assumes "storedOrEmpty this ident \<noteq> None"
  shows "InMemoryRateLimiter_getTimestamps this ident addNew now =
     (Resolved (inWindow this now (stored this ident) @ (if addNew then [now] else [])),
      this\<lparr> ttls := (if addNew
                      then (ttls this)(ident \<mapsto> now +
                             millisecondsToMicroseconds
                               (setTimeout_delay (microsecondsToMilliseconds (interval this))))
                      else ttls this),
            storage := (storage this)(ident \<mapsto>
                         inWindow this now (stored this ident) @ (if addNew then [now] else [])) \<rparr>)"
proof -
  from assms obtain xs where xs: "storedOrEmpty this ident = Some xs" by auto
  then have "xs = stored this ident" by (rule storedOrEmpty_Some)
  with xs show ?thesis
    by (simp add: InMemoryRateLimiter_getTimestamps_def Let_def inWindow_def)
qed

lemma attempts_snoc:
  "attempts ident (history @ [c]) = record_attempt ident (attempts ident history) c"
  by (simp add: attempts_def)

lemma attempts_Nil [simp]: "attempts ident [] = []"
  by (simp add: attempts_def)

lemma config_update [simp]:
  "config (this\<lparr> storage := s \<rparr>) = config this"
  "config (this\<lparr> ttls := t \<rparr>) = config this"
  by (simp_all add: config_def)

lemma getTimestamps_fst:
  "storedOrEmpty this ident \<noteq> None \<Longrightarrow>
   fst (InMemoryRateLimiter_getTimestamps this ident addNew now) =
     Resolved (inWindow this now (stored this ident) @ (if addNew then [now] else []))"
  by (simp add: InMemoryRateLimiter_getTimestamps_eq)

lemma getTimestamps_stored:
  "storedOrEmpty this ident \<noteq> None \<Longrightarrow>
   stored (snd (InMemoryRateLimiter_getTimestamps this ident addNew now)) i =
     (if i = ident then inWindow this now (stored this ident) @ (if addNew then [now] else [])
      else stored this i)"
  by (simp add: InMemoryRateLimiter_getTimestamps_eq stored_def)

lemma getTimestamps_ttls:
  "storedOrEmpty this ident \<noteq> None \<Longrightarrow>
   ttls (snd (InMemoryRateLimiter_getTimestamps this ident addNew now)) =
     (if addNew
      then (ttls this)(ident \<mapsto> now +
             millisecondsToMicroseconds
               (setTimeout_delay (microsecondsToMilliseconds (interval this))))
      else ttls this)"
  by (simp add: InMemoryRateLimiter_getTimestamps_eq)

lemma getTimestamps_other:
  assumes "i \<noteq> ident"
  shows "stored (snd (InMemoryRateLimiter_getTimestamps this ident addNew now)) i = stored this i"
    and "storage (snd (InMemoryRateLimiter_getTimestamps this ident addNew now)) i = storage this i"
    and "ttls (snd (InMemoryRateLimiter_getTimestamps this ident addNew now)) i = ttls this i"
  using assms
  by (cases "storedOrEmpty this ident = None";
      simp add: getTimestamps_thrown InMemoryRateLimiter_getTimestamps_eq stored_def)+

lemma getTimestamps_config [simp]:
  "config (snd (InMemoryRateLimiter_getTimestamps this ident addNew now)) = config this"
  by (cases "storedOrEmpty this ident = None")
     (simp_all add: getTimestamps_thrown InMemoryRateLimiter_getTimestamps_eq)

lemma getTimestamps_interval [simp]:
  "interval (snd (InMemoryRateLimiter_getTimestamps this ident addNew now)) = interval this"
  by (cases "storedOrEmpty this ident = None")
     (simp_all add: getTimestamps_thrown InMemoryRateLimiter_getTimestamps_eq)

lemma limitWithInfo_mem:
  assumes "storedOrEmpty this ident \<noteq> None"
  shows "limitWithInfo InMemoryRateLimiter_getTimestamps this ident now =
     (Resolved (calculateInfo this (inWindow this now (stored this ident) @ [now]) False),
      snd (InMemoryRateLimiter_getTimestamps this ident True now))"
proof -
  obtain this' where g: "InMemoryRateLimiter_getTimestamps this ident True now =
      (Resolved (inWindow this now (stored this ident) @ [now]), this')"
    by (simp add: InMemoryRateLimiter_getTimestamps_eq [OF assms])
  have "config this' = config this"
    using getTimestamps_config [of this ident True now] g by simp
  then have "calculateInfo this' = calculateInfo this"
    by (rule calculateInfo_cong)
  with g show ?thesis by (simp add: limitWithInfo_def)
qed

lemma wouldLimitWithInfo_mem:
  assumes "storedOrEmpty this ident \<noteq> None"
  shows "wouldLimitWithInfo InMemoryRateLimiter_getTimestamps this ident now cur =
     (Resolved (calculateInfo this (inWindow this now (stored this ident) @ [cur]) True),
      snd (InMemoryRateLimiter_getTimestamps this ident False now))"
proof -
  obtain this' where g: "InMemoryRateLimiter_getTimestamps this ident False now =
      (Resolved (inWindow this now (stored this ident)), this')"
    by (simp add: InMemoryRateLimiter_getTimestamps_eq [OF assms])
  have "config this' = config this"
    using getTimestamps_config [of this ident False now] g by simp
  then have "calculateInfo this' = calculateInfo this"
    by (rule calculateInfo_cong)
  with g show ?thesis by (simp add: wouldLimitWithInfo_def)
qed

lemma call_mem_LimitWithInfo:
  "storedOrEmpty this ident \<noteq> None \<Longrightarrow>
   InMemoryRateLimiter_call this (LimitWithInfo ident now) =
     (Info (calculateInfo this (inWindow this now (stored this ident) @ [now]) False),
      snd (InMemoryRateLimiter_getTimestamps this ident True now))"
  by (simp add: limitWithInfo_mem settle_def)

lemma call_mem_Limit:
  "storedOrEmpty this ident \<noteq> None \<Longrightarrow>
   InMemoryRateLimiter_call this (Limit ident now) =
     (Verdict (blocked (calculateInfo this (inWindow this now (stored this ident) @ [now]) False)),
      snd (InMemoryRateLimiter_getTimestamps this ident True now))"
  by (simp add: limit_def limitWithInfo_mem settle_def)

lemma call_mem_WouldLimitWithInfo:
  "storedOrEmpty this ident \<noteq> None \<Longrightarrow>
   InMemoryRateLimiter_call this (WouldLimitWithInfo ident now cur) =
     (Info (calculateInfo this (inWindow this now (stored this ident) @ [cur]) True),
      snd (InMemoryRateLimiter_getTimestamps this ident False now))"
  by (simp add: wouldLimitWithInfo_mem settle_def)

lemma call_mem_WouldLimit:
  "storedOrEmpty this ident \<noteq> None \<Longrightarrow>
   InMemoryRateLimiter_call this (WouldLimit ident now cur) =
     (Verdict (blocked (calculateInfo this (inWindow this now (stored this ident) @ [cur]) True)),
      snd (InMemoryRateLimiter_getTimestamps this ident False now))"
  by (simp add: wouldLimit_def wouldLimitWithInfo_mem settle_def)

lemma call_mem_Clear:
  "InMemoryRateLimiter_call this (Clear ident) = (Cleared, timeoutCallback this ident)"
  by (simp add: InMemoryRateLimiter_clear_def timeoutCallback_def settle_def)

lemmas call_mem = call_mem_LimitWithInfo call_mem_Limit call_mem_WouldLimitWithInfo
  call_mem_WouldLimit call_mem_Clear

text \<open>A call other than \<open>clear\<close> on an inherited name fails and changes nothing.\<close>

lemma call_mem_thrown:
  assumes "storedOrEmpty this (identOf cl) = None" and "\<forall>ident. cl \<noteq> Clear ident"
  shows "InMemoryRateLimiter_call this cl =
           (Failed (TypeError ''(this.storage[id] || []).filter is not a function''), this)"
  using assms
  by (cases cl)
     (simp_all add: getTimestamps_thrown limitWithInfo_def wouldLimitWithInfo_def limit_def
        wouldLimit_def settle_def)

lemma settle_snd: "snd (settle f r) = snd r"
  by (simp add: settle_def split: prod.splits promise.splits)

lemma facade_snd:
  "snd (limitWithInfo getTimestamps this ident env) = snd (getTimestamps this ident True env)"
  "snd (limit getTimestamps this ident env) = snd (getTimestamps this ident True env)"
  "snd (wouldLimitWithInfo getTimestamps this ident env cur) =
     snd (getTimestamps this ident False env)"
  "snd (wouldLimit getTimestamps this ident env cur) = snd (getTimestamps this ident False env)"
  by (simp_all add: limitWithInfo_def limit_def wouldLimitWithInfo_def wouldLimit_def
        split: prod.splits promise.splits)

lemma call_mem_snd:
  "snd (InMemoryRateLimiter_call this cl) =
     (case cl of
        LimitWithInfo ident now \<Rightarrow> snd (InMemoryRateLimiter_getTimestamps this ident True now)
      | Limit ident now \<Rightarrow> snd (InMemoryRateLimiter_getTimestamps this ident True now)
      | WouldLimitWithInfo ident now cur \<Rightarrow>
          snd (InMemoryRateLimiter_getTimestamps this ident False now)
      | WouldLimit ident now cur \<Rightarrow>
          snd (InMemoryRateLimiter_getTimestamps this ident False now)
      | Clear ident \<Rightarrow> timeoutCallback this ident)"
  by (cases cl)
     (simp_all add: settle_snd facade_snd InMemoryRateLimiter_clear_def timeoutCallback_def)

lemma timeoutCallback_stored:
  "stored (timeoutCallback this ident) i = (if i = ident then [] else stored this i)"
  by (simp add: timeoutCallback_def stored_def)

lemma timeoutCallback_ttls:
  "ttls (timeoutCallback this ident) = (ttls this)(ident := None)"
  by (simp add: timeoutCallback_def)

lemma timeoutCallback_config [simp]: "config (timeoutCallback this ident) = config this"
  by (simp add: timeoutCallback_def)

lemma timeoutCallback_interval [simp]: "interval (timeoutCallback this ident) = interval this"
  by (simp add: timeoutCallback_def)

text \<open>
  For an interval that \<open>setTimeout\<close> can hold, the timeout falls due no earlier than one
  interval after it was set.
\<close>

lemma ttl_delay:
  assumes "0 < interval this" and "interval this \<le> millisecondsToMicroseconds TIMEOUT_MAX"
  shows "interval this \<le>
           millisecondsToMicroseconds (setTimeout_delay (microsecondsToMilliseconds (interval this)))"
proof -
  have "1 \<le> microsecondsToMilliseconds (interval this)"
    using ceil_bounds [of "interval this"] assms(1) by linarith
  moreover have "microsecondsToMilliseconds (interval this) \<le> TIMEOUT_MAX"
    using ceil_bounds [of "interval this"] assms(2)
    by (simp add: millisecondsToMicroseconds_def)
  ultimately show ?thesis
    using ceil_bounds [of "interval this"]
    by (simp add: setTimeout_delay_def millisecondsToMicroseconds_def)
qed

lemma inWindow_interval: "interval a = interval b \<Longrightarrow> inWindow a = inWindow b"
  by (simp add: fun_eq_iff inWindow_def)

lemma inWindow_empty_iff:
  "inWindow this now xs = [] \<longleftrightarrow> (\<forall>t \<in> set xs. t + interval this \<le> now)"
  by (auto simp: inWindow_def filter_empty_conv)

text \<open>
  A call keeps the invariant, and on an identifier that names no inherited property it
  returns the expected outcome.
\<close>

lemma memInv_later:
  assumes "memInv this history c" and "c \<le> c'"
  shows "memInv this history c'"
  using assms unfolding memInv_def
  by (meson inWindow_eq_later order_trans)

lemma memInv_call:
  assumes inv: "memInv this history c" and mono: "sorted (c # readings cl)"
      and pos: "0 < interval this" and cap: "interval this \<le> millisecondsToMicroseconds TIMEOUT_MAX"
  shows "(\<not> inheritedProperty (identOf cl) \<longrightarrow>
            fst (InMemoryRateLimiter_call this cl) = expected (config this) history cl) \<and>
         memInv (snd (InMemoryRateLimiter_call this cl)) (history @ [cl]) (last (c # readings cl))"
proof -
  have win: "\<And>ident now. c \<le> now \<Longrightarrow> \<not> inheritedProperty ident \<Longrightarrow>
      inWindow this now (stored this ident) = inWindow this now (attempts ident history)"
    using inv inWindow_eq_later unfolding memInv_def by blast
  have due: "\<And>ident d t. \<not> inheritedProperty ident \<Longrightarrow> ttls this ident = Some d \<Longrightarrow>
      t \<in> set (attempts ident history) \<Longrightarrow> t + interval this \<le> d"
    using inv unfolding memInv_def by blast
  have past: "\<And>ident t. t \<in> set (attempts ident history) \<Longrightarrow> t \<le> c"
    using inv unfolding memInv_def by blast
  have add: "memInv (snd (InMemoryRateLimiter_getTimestamps this ident True now))
               (history @ [cl]) now"
    if "c \<le> now" and rec: "\<And>i. attempts i (history @ [cl]) =
          (if i = ident then attempts i history @ [now] else attempts i history)"
    for ident now
  proof -
    let ?this' = "snd (InMemoryRateLimiter_getTimestamps this ident True now)"
    have iw: "inWindow ?this' = inWindow this"
      by (rule inWindow_interval) simp
    have "inWindow this now (stored ?this' i) = inWindow this now (attempts i (history @ [cl]))"
      if ni: "\<not> inheritedProperty i" for i
    proof (cases "i = ident")
      case True
      then have r: "storedOrEmpty this ident \<noteq> None" using ni by (simp add: storedOrEmpty_plain)
      show ?thesis
        using win [OF \<open>c \<le> now\<close>, of ident] ni True
          inWindow_later [of now now this "stored this ident"]
        by (simp add: getTimestamps_stored [OF r] rec)
    next
      case False
      then show ?thesis
        using win [OF \<open>c \<le> now\<close> ni] by (simp add: getTimestamps_other rec)
    qed
    moreover have "t + interval this \<le> d"
      if ni: "\<not> inheritedProperty i" and "ttls ?this' i = Some d"
        and "t \<in> set (attempts i (history @ [cl]))" for i d t
    proof (cases "i = ident")
      case True
      then have r: "storedOrEmpty this ident \<noteq> None" using ni by (simp add: storedOrEmpty_plain)
      have d: "d = now + millisecondsToMicroseconds
                         (setTimeout_delay (microsecondsToMilliseconds (interval this)))"
        using that(2) True by (simp add: getTimestamps_ttls [OF r])
      have "t \<le> now" using that(3) True past [of t ident] \<open>c \<le> now\<close> by (auto simp: rec)
      then show ?thesis using d ttl_delay [OF pos cap] by linarith
    next
      case False
      then show ?thesis using that due [of i d t] by (simp add: getTimestamps_other rec)
    qed
    moreover have "t \<le> now" if "t \<in> set (attempts i (history @ [cl]))" for i t
      using that past [of t i] \<open>c \<le> now\<close> by (auto simp: rec split: if_splits)
    ultimately show ?thesis
      unfolding memInv_def by (simp add: iw)
  qed
  have noadd: "memInv (snd (InMemoryRateLimiter_getTimestamps this ident False now))
               (history @ [cl]) cur"
    if "c \<le> now" and "now \<le> cur" and rec: "\<And>i. attempts i (history @ [cl]) = attempts i history"
    for ident now cur
  proof -
    let ?this' = "snd (InMemoryRateLimiter_getTimestamps this ident False now)"
    have iw: "inWindow ?this' = inWindow this"
      by (rule inWindow_interval) simp
    have "inWindow this now (stored ?this' i) = inWindow this now (attempts i (history @ [cl]))"
      if ni: "\<not> inheritedProperty i" for i
    proof (cases "i = ident")
      case True
      then have r: "storedOrEmpty this ident \<noteq> None" using ni by (simp add: storedOrEmpty_plain)
      show ?thesis
        using win [OF \<open>c \<le> now\<close>, of ident] ni True
          inWindow_later [of now now this "stored this ident"]
        by (simp add: getTimestamps_stored [OF r] rec)
    next
      case False
      then show ?thesis
        using win [OF \<open>c \<le> now\<close> ni] by (simp add: getTimestamps_other rec)
    qed
    moreover have "t + interval this \<le> d"
      if ni: "\<not> inheritedProperty i" and "ttls ?this' i = Some d"
        and "t \<in> set (attempts i (history @ [cl]))" for i d t
    proof (cases "i = ident")
      case True
      then have r: "storedOrEmpty this ident \<noteq> None" using ni by (simp add: storedOrEmpty_plain)
      show ?thesis using that due [of i d t] by (simp add: getTimestamps_ttls [OF r] True rec)
    next
      case False
      then show ?thesis using that due [of i d t] by (simp add: getTimestamps_other rec)
    qed
    moreover have "t \<le> now" if "t \<in> set (attempts i (history @ [cl]))" for i t
      using that past [of t i] \<open>c \<le> now\<close> by (auto simp: rec)
    ultimately have "memInv ?this' (history @ [cl]) now"
      unfolding memInv_def by (simp add: iw)
    then show ?thesis using \<open>now \<le> cur\<close> by (rule memInv_later)
  qed
  have out: "fst (InMemoryRateLimiter_call this cl) = expected (config this) history cl"
    if ni: "\<not> inheritedProperty (identOf cl)"
  proof (cases cl)
    case (LimitWithInfo ident now)
    then have le: "c \<le> now" using mono by simp
    have r: "storedOrEmpty this ident \<noteq> None"
      using ni LimitWithInfo by (simp add: storedOrEmpty_plain)
    show ?thesis
      unfolding LimitWithInfo call_mem_LimitWithInfo [OF r]
      using win [OF le, of ident] ni LimitWithInfo by simp
  next
    case (Limit ident now)
    then have le: "c \<le> now" using mono by simp
    have r: "storedOrEmpty this ident \<noteq> None"
      using ni Limit by (simp add: storedOrEmpty_plain)
    show ?thesis
      unfolding Limit call_mem_Limit [OF r]
      using win [OF le, of ident] ni Limit by simp
  next
    case (WouldLimitWithInfo ident now cur)
    then have le: "c \<le> now" using mono by simp
    have r: "storedOrEmpty this ident \<noteq> None"
      using ni WouldLimitWithInfo by (simp add: storedOrEmpty_plain)
    show ?thesis
      unfolding WouldLimitWithInfo call_mem_WouldLimitWithInfo [OF r]
      using win [OF le, of ident] ni WouldLimitWithInfo by simp
  next
    case (WouldLimit ident now cur)
    then have le: "c \<le> now" using mono by simp
    have r: "storedOrEmpty this ident \<noteq> None"
      using ni WouldLimit by (simp add: storedOrEmpty_plain)
    show ?thesis
      unfolding WouldLimit call_mem_WouldLimit [OF r]
      using win [OF le, of ident] ni WouldLimit by simp
  next
    case (Clear ident)
    show ?thesis unfolding Clear call_mem_Clear by simp
  qed
  have keep: "memInv (snd (InMemoryRateLimiter_call this cl)) (history @ [cl])
                (last (c # readings cl))"
  proof (cases cl)
    case (LimitWithInfo ident now)
    then have le: "c \<le> now" using mono by simp
    have rec: "\<And>i. attempts i (history @ [cl]) =
        (if i = ident then attempts i history @ [now] else attempts i history)"
      by (auto simp: attempts_snoc LimitWithInfo)
    show ?thesis
      unfolding call_mem_snd using add [OF le rec] by (simp add: LimitWithInfo)
  next
    case (Limit ident now)
    then have le: "c \<le> now" using mono by simp
    have rec: "\<And>i. attempts i (history @ [cl]) =
        (if i = ident then attempts i history @ [now] else attempts i history)"
      by (auto simp: attempts_snoc Limit)
    show ?thesis
      unfolding call_mem_snd using add [OF le rec] by (simp add: Limit)
  next
    case (WouldLimitWithInfo ident now cur)
    then have le: "c \<le> now" "now \<le> cur" using mono by simp_all
    have rec: "\<And>i. attempts i (history @ [cl]) = attempts i history"
      by (auto simp: attempts_snoc WouldLimitWithInfo)
    show ?thesis
      unfolding call_mem_snd using noadd [OF le rec] by (simp add: WouldLimitWithInfo)
  next
    case (WouldLimit ident now cur)
    then have le: "c \<le> now" "now \<le> cur" using mono by simp_all
    have rec: "\<And>i. attempts i (history @ [cl]) = attempts i history"
      by (auto simp: attempts_snoc WouldLimit)
    show ?thesis
      unfolding call_mem_snd using noadd [OF le rec] by (simp add: WouldLimit)
  next
    case (Clear ident)
    have "memInv (timeoutCallback this ident) (history @ [cl]) c"
      using inv unfolding memInv_def
      by (auto simp: timeoutCallback_stored timeoutCallback_ttls Clear
               attempts_snoc inWindow_interval [of "timeoutCallback this ident" this])
    then show ?thesis unfolding call_mem_snd by (simp add: Clear)
  qed
  show ?thesis using out keep by blast
qed

lemma memInv_timer:
  assumes inv: "memInv this history c" and t: "ttls this ident = Some due" "due \<le> t" "c \<le> t"
  shows "memInv (timeoutCallback this ident) history t"
proof -
  have later: "memInv this history t" using inv t(3) by (rule memInv_later)
  have gone: "inWindow this t (attempts ident history) = []" if "\<not> inheritedProperty ident"
    using inv t(1,2) that unfolding memInv_def inWindow_empty_iff by fastforce
  have iw: "inWindow (timeoutCallback this ident) = inWindow this"
    by (rule inWindow_interval) simp
  show ?thesis
    using later gone unfolding memInv_def
    by (auto simp: timeoutCallback_stored timeoutCallback_ttls iw)
qed

lemma call_mem_config [simp]:
  "config (snd (InMemoryRateLimiter_call this cl)) = config this"
  unfolding call_mem_snd by (cases cl) simp_all

lemma call_mem_interval [simp]:
  "interval (snd (InMemoryRateLimiter_call this cl)) = interval this"
  unfolding call_mem_snd by (cases cl) simp_all

lemma sorted_readings:
  assumes "sorted (c # xs @ ys)"
  shows "sorted (c # xs)" and "sorted (last (c # xs) # ys)"
proof -
  have s: "sorted ((c # xs) @ ys)" using assms by simp
  then show "sorted (c # xs)" unfolding sorted_append by blast
  have l: "last (c # xs) \<in> set (c # xs)" by (rule last_in_set) simp
  have a: "\<forall>x\<in>set (c # xs). \<forall>y\<in>set ys. x \<le> y" and b: "sorted ys"
    using s unfolding sorted_append by blast+
  from a l have "\<forall>y\<in>set ys. last (c # xs) \<le> y" by blast
  with b show "sorted (last (c # xs) # ys)"
    unfolding sorted_simps by blast
qed

lemma timerFires_config [simp]: "config (timerFires this ident t) = config this"
  by (simp add: timerFires_def split: option.splits)

lemma timerFires_interval [simp]: "interval (timerFires this ident t) = interval this"
  by (simp add: timerFires_def split: option.splits)

lemma memInv_timerFires:
  assumes "memInv this history c" and "c \<le> t"
  shows "memInv (timerFires this ident t) history t"
proof (cases "\<exists>due. ttls this ident = Some due \<and> due \<le> t")
  case True
  then obtain due where d: "ttls this ident = Some due" "due \<le> t" by blast
  then have "timerFires this ident t = timeoutCallback this ident"
    by (simp add: timerFires_def)
  then show ?thesis using memInv_timer [OF assms(1) d assms(2)] by simp
next
  case False
  then have "timerFires this ident t = this"
    by (auto simp: timerFires_def split: option.splits)
  then show ?thesis using memInv_later [OF assms] by simp
qed

lemma memInv_run:
  assumes "memInv this history c" and "sorted (c # clock evs)"
      and "0 < interval this" and "interval this \<le> millisecondsToMicroseconds TIMEOUT_MAX"
  shows "((\<forall>cl \<in> set (callsOf evs). \<not> inheritedProperty (identOf cl)) \<longrightarrow>
            fst (InMemoryRateLimiter_run this evs) =
              expectedOutcomes (config this) history (callsOf evs)) \<and>
         memInv (snd (InMemoryRateLimiter_run this evs)) (history @ callsOf evs)
           (last (c # clock evs))"
  using assms
proof (induction evs arbitrary: this history c)
  case Nil
  then show ?case by simp
next
  case (Cons ev evs)
  show ?case
  proof (cases ev)
    case (Call cl)
    obtain out this' where c: "InMemoryRateLimiter_call this cl = (out, this')"
      by fastforce
    obtain outs this'' where r: "InMemoryRateLimiter_run this' evs = (outs, this'')"
      by fastforce
    define c' where "c' = last (c # readings cl)"
    have s: "sorted (c # readings cl @ clock evs)" using Cons.prems(2) Call by simp
    have step: "\<not> inheritedProperty (identOf cl) \<Longrightarrow> out = expected (config this) history cl"
      "memInv this' (history @ [cl]) c'"
      using memInv_call [OF Cons.prems(1) sorted_readings(1) [OF s] Cons.prems(3,4)] c
      unfolding c'_def by simp_all
    have cfg: "config this' = config this"
      using call_mem_config [of this cl] c by simp
    have iv: "interval this' = interval this"
      using call_mem_interval [of this cl] c by simp
    have s': "sorted (c' # clock evs)"
      unfolding c'_def by (rule sorted_readings(2) [OF s])
    have ih: "(\<forall>cl \<in> set (callsOf evs). \<not> inheritedProperty (identOf cl)) \<Longrightarrow>
        outs = expectedOutcomes (config this) (history @ [cl]) (callsOf evs)"
      "memInv this'' ((history @ [cl]) @ callsOf evs) (last (c' # clock evs))"
      using Cons.IH [OF step(2) s'] Cons.prems(3,4) r cfg iv by simp_all
    have l: "last (c # clock (ev # evs)) = last (c' # clock evs)"
      unfolding Call c'_def by (simp add: last_append)
    have run: "InMemoryRateLimiter_run this (ev # evs) = (out # outs, this'')"
      by (simp add: Call c r)
    show ?thesis
      unfolding l run using step(1) ih by (simp add: Call)
  next
    case (TimerFires ident t)
    have ct: "c \<le> t" and s: "sorted (t # clock evs)" using Cons.prems(2) TimerFires by simp_all
    note ih = Cons.IH [OF memInv_timerFires [OF Cons.prems(1) ct] s]
    show ?thesis
      using ih Cons.prems(3,4) by (simp add: TimerFires)
  qed
qed

lemma memInv_initial:
  assumes "InMemoryRateLimiter options = Inr this"
  shows "memInv this [] c"
proof -
  have "storage this = Map.empty" and "ttls this = Map.empty"
    using assms by (auto simp: InMemoryRateLimiter_def split: sum.splits)
  then show ?thesis by (simp add: memInv_def stored_def)
qed
section \<open>Blocked attempts count\<close>

lemma run_mem_config [simp]:
  "config (snd (InMemoryRateLimiter_run this evs)) = config this"
proof (induction evs arbitrary: this)
  case Nil
  then show ?case by simp
next
  case (Cons ev evs)
  show ?case
  proof (cases ev)
    case (Call cl)
    then show ?thesis
      using Cons.IH [of "snd (InMemoryRateLimiter_call this cl)"]
      by (simp add: split_beta)
  next
    case (TimerFires ident t)
    then show ?thesis
      using Cons.IH [of "timerFires this ident t"] by simp
  qed
qed

lemma InMemoryRateLimiter_Inr:
  assumes "InMemoryRateLimiter options = Inr this"
  shows "0 < interval this \<and> 0 < maxInInterval this \<and> 0 \<le> minDifference this"
proof -
  obtain base where b: "RateLimiter options = Inr base" and "config this = base"
    using assms by (auto simp: InMemoryRateLimiter_def config_def split: sum.splits)
  then show ?thesis using RateLimiter_Inr [OF b] by (auto simp: config_def)
qed

lemma sorted_snoc_start:
  assumes "sorted (xs @ [now :: int])"
  shows "sorted (hd (xs @ [now]) # xs)" and "last (hd (xs @ [now]) # xs) \<le> now"
proof -
  show "sorted (hd (xs @ [now]) # xs)"
    using assms by (cases xs) (auto simp: sorted_append)
  show "last (hd (xs @ [now]) # xs) \<le> now"
    using assms by (cases xs rule: rev_cases) (auto simp: sorted_append)
qed

lemma blockedDueToCount_eq:
  "blockedDueToCount (calculateInfo this timestamps isWould) \<longleftrightarrow>
     maxInInterval this < int (length timestamps)"
  by (simp add: calculateInfo_def Let_def)

lemma blocked_eq:
  "blocked (calculateInfo this timestamps isWould) \<longleftrightarrow>
     blockedDueToCount (calculateInfo this timestamps isWould) \<or>
     blockedDueToMinDifference (calculateInfo this timestamps isWould)"
  by (simp add: calculateInfo_def Let_def)

lemma blockedDueToMinDifference_zero:
  "minDifference this = 0 \<Longrightarrow>
     \<not> blockedDueToMinDifference (calculateInfo this timestamps isWould)"
  by (simp add: calculateInfo_def Let_def split: option.splits)

lemma window_after_run:
  assumes "InMemoryRateLimiter options = Inr this0"
      and "interval this0 \<le> millisecondsToMicroseconds TIMEOUT_MAX"
      and "sorted (clock evs @ [now])"
      and "\<not> inheritedProperty ident"
  shows "inWindow this0 now (stored (snd (InMemoryRateLimiter_run this0 evs)) ident) =
         inWindow this0 now (attempts ident (callsOf evs))"
proof -
  let ?c = "hd (clock evs @ [now])"
  let ?lim = "snd (InMemoryRateLimiter_run this0 evs)"
  have pos: "0 < interval this0" using InMemoryRateLimiter_Inr [OF assms(1)] by simp
  have "memInv ?lim ([] @ callsOf evs) (last (?c # clock evs))"
    using memInv_run [OF memInv_initial [OF assms(1)] sorted_snoc_start(1) [OF assms(3)]
            pos assms(2)]
    by blast
  then have "memInv ?lim (callsOf evs) now"
    using sorted_snoc_start(2) [OF assms(3)] memInv_later by simp
  then have "inWindow ?lim now (stored ?lim ident) = inWindow ?lim now (attempts ident (callsOf evs))"
    using assms(4) unfolding memInv_def by blast
  moreover have "inWindow ?lim = inWindow this0"
    by (rule inWindow_cong) simp
  ultimately show ?thesis by simp
qed

lemmas evaluate =
  settle_def limit_def wouldLimit_def limitWithInfo_def wouldLimitWithInfo_def
  InMemoryRateLimiter_getTimestamps_def InMemoryRateLimiter_clear_def timeoutCallback_def
  timerFires_def storedOrEmpty_def inheritedProperty_def setTimeout_delay_def TIMEOUT_MAX_def
  calculateInfo_def windowWait_def at_def inWindow_def Let_def
  millisecondsToMicroseconds_def microsecondsToMilliseconds_def



section \<open>The stored lists ascend\<close>

lemma sorted_inWindow: "sorted xs \<Longrightarrow> sorted (inWindow this now xs)"
  unfolding inWindow_def by (rule sorted_wrt_filter)

lemma set_inWindow: "set (inWindow this now xs) = {t \<in> set xs. now - interval this < t}"
  by (auto simp: inWindow_def)

lemma ascending_later: "ascending this c \<Longrightarrow> c \<le> c' \<Longrightarrow> ascending this c'"
  unfolding ascending_def by (meson order_trans)

lemma ascending_getTimestamps:
  assumes "ascending this c" and "c \<le> now"
  shows "ascending (snd (InMemoryRateLimiter_getTimestamps this ident addNew now)) now"
proof (cases "storedOrEmpty this ident = None")
  case True
  then show ?thesis
    using ascending_later [OF assms] by (simp add: getTimestamps_thrown)
next
  case False
  have "sorted (stored (snd (InMemoryRateLimiter_getTimestamps this ident addNew now)) i) \<and>
        (\<forall>t \<in> set (stored (snd (InMemoryRateLimiter_getTimestamps this ident addNew now)) i).
           t \<le> now)" for i
  proof -
    have a: "sorted (stored this i)" "\<forall>t \<in> set (stored this i). t \<le> now"
      and b: "sorted (stored this ident)" "\<forall>t \<in> set (stored this ident). t \<le> now"
      using assms unfolding ascending_def by (meson order_trans)+
    show ?thesis
      using a b sorted_inWindow [OF b(1), of this now]
      by (auto simp: getTimestamps_stored [OF False] sorted_append set_inWindow)
  qed
  then show ?thesis unfolding ascending_def by blast
qed

lemma ascending_timer: "ascending this c \<Longrightarrow> ascending (timeoutCallback this ident) c"
  unfolding ascending_def by (simp add: timeoutCallback_stored)

lemma ascending_timerFires: "ascending this c \<Longrightarrow> ascending (timerFires this ident t) c"
  using ascending_timer by (simp add: timerFires_def split: option.splits)

lemma ascending_call:
  assumes "ascending this c" and "sorted (c # readings cl)"
  shows "ascending (snd (InMemoryRateLimiter_call this cl)) (last (c # readings cl))"
proof (cases cl)
  case (LimitWithInfo ident now)
  then have "c \<le> now" using assms(2) by simp
  then show ?thesis
    unfolding call_mem_snd
    using ascending_getTimestamps [OF assms(1), of now ident True] by (simp add: LimitWithInfo)
next
  case (WouldLimitWithInfo ident now cur)
  then have "c \<le> now" "now \<le> cur" using assms(2) by simp_all
  then show ?thesis
    unfolding call_mem_snd
    using ascending_later [OF ascending_getTimestamps [OF assms(1), of now ident False]]
    by (simp add: WouldLimitWithInfo)
next
  case (Limit ident now)
  then have "c \<le> now" using assms(2) by simp
  then show ?thesis
    unfolding call_mem_snd
    using ascending_getTimestamps [OF assms(1), of now ident True] by (simp add: Limit)
next
  case (WouldLimit ident now cur)
  then have "c \<le> now" "now \<le> cur" using assms(2) by simp_all
  then show ?thesis
    unfolding call_mem_snd
    using ascending_later [OF ascending_getTimestamps [OF assms(1), of now ident False]]
    by (simp add: WouldLimit)
next
  case (Clear ident)
  then show ?thesis
    unfolding call_mem_snd using assms(1) ascending_timer by (simp add: Clear)
qed

lemma ascending_run:
  assumes "ascending this c" and "sorted (c # clock evs)"
  shows "ascending (snd (InMemoryRateLimiter_run this evs)) (last (c # clock evs))"
  using assms
proof (induction evs arbitrary: this c)
  case Nil
  then show ?case by simp
next
  case (Cons ev evs)
  show ?case
  proof (cases ev)
    case (Call cl)
    define c' where "c' = last (c # readings cl)"
    have s: "sorted (c # readings cl @ clock evs)" using Cons.prems(2) Call by simp
    have a: "ascending (snd (InMemoryRateLimiter_call this cl)) c'"
      unfolding c'_def by (rule ascending_call [OF Cons.prems(1) sorted_readings(1) [OF s]])
    have s': "sorted (c' # clock evs)"
      unfolding c'_def by (rule sorted_readings(2) [OF s])
    have l: "last (c # clock (ev # evs)) = last (c' # clock evs)"
      unfolding Call c'_def by (simp add: last_append)
    show ?thesis
      unfolding l using Cons.IH [OF a s'] by (simp add: Call split_beta)
  next
    case (TimerFires ident t)
    have ct: "c \<le> t" and s: "sorted (t # clock evs)" using Cons.prems(2) TimerFires by simp_all
    have a: "ascending (timerFires this ident t) t"
      by (rule ascending_later [OF ascending_timerFires [OF Cons.prems(1)] ct])
    show ?thesis
      using Cons.IH [OF a s] by (simp add: TimerFires)
  qed
qed

lemma ascending_initial:
  assumes "InMemoryRateLimiter options = Inr this"
  shows "ascending this c"
proof -
  have "storage this = Map.empty"
    using assms by (auto simp: InMemoryRateLimiter_def split: sum.splits)
  then show ?thesis by (simp add: ascending_def stored_def)
qed

text \<open>
  Claim C10.  After a run of calls on a fresh in-memory limiter under a nondecreasing
  clock, the list that \<open>getTimestamps\<close> persists for the identifier (and returns)
  ascends, every element is later than \<open>now - interval\<close>, and with \<open>addNewTimestamp\<close>
  its last element is \<open>now\<close>.  The identifier names no inherited property: for one that
  does, the call fails and persists no list.
\<close>

theorem stored_list_ascending:
  assumes "InMemoryRateLimiter options = Inr this0" and "sorted (clock evs @ [now])"
      and "\<not> inheritedProperty ident"
  shows "let result = InMemoryRateLimiter_getTimestamps
                        (snd (InMemoryRateLimiter_run this0 evs)) ident addNew now
         in \<exists>ts. fst result = Resolved ts \<and> storage (snd result) ident = Some ts \<and>
                  sorted ts \<and> (\<forall>t \<in> set ts. now - interval this0 < t) \<and>
                  (addNew \<longrightarrow> last ts = now)"
proof -
  let ?lim = "snd (InMemoryRateLimiter_run this0 evs)"
  let ?c = "hd (clock evs @ [now])"
  have rd: "storedOrEmpty ?lim ident \<noteq> None"
    using assms(3) by (simp add: storedOrEmpty_plain)
  have "ascending ?lim (last (?c # clock evs))"
    by (rule ascending_run [OF ascending_initial [OF assms(1)] sorted_snoc_start(1) [OF assms(2)]])
  then have "ascending ?lim now"
    using sorted_snoc_start(2) [OF assms(2)] by (rule ascending_later)
  then have a: "sorted (stored ?lim ident)" "\<forall>t \<in> set (stored ?lim ident). t \<le> now"
    unfolding ascending_def by blast+
  have iv: "interval ?lim = interval this0"
    using run_mem_config [of this0 evs] by (simp add: config_def)
  have pos: "0 < interval this0" using InMemoryRateLimiter_Inr [OF assms(1)] by simp
  let ?ts = "inWindow ?lim now (stored ?lim ident) @ (if addNew then [now] else [])"
  have "sorted ?ts"
    using a by (auto simp: sorted_append sorted_inWindow set_inWindow)
  moreover have "\<forall>t \<in> set ?ts. now - interval this0 < t"
    using pos iv by (auto simp: set_inWindow)
  moreover have "addNew \<longrightarrow> last ?ts = now" by simp
  ultimately show ?thesis
    unfolding Let_def InMemoryRateLimiter_getTimestamps_eq [OF rd] by simp
qed

theorem stored_list_ascending_witness:
  "InMemoryRateLimiter
     \<lparr>opt_interval = Some 10, opt_maxInInterval = Some 2, opt_minDifference = None\<rparr> =
     Inr \<lparr>interval = 10000, maxInInterval = 2, minDifference = 0,
          storage = Map.empty, ttls = Map.empty\<rparr> \<and>
   sorted (clock [Call (LimitWithInfo ''a'' 0), Call (LimitWithInfo ''a'' 4000),
                  Call (WouldLimit ''a'' 5000 5001)] @ [12000]) \<and>
   \<not> inheritedProperty ''a'' \<and>
   fst (InMemoryRateLimiter_getTimestamps
         (snd (InMemoryRateLimiter_run
                 \<lparr>interval = 10000, maxInInterval = 2, minDifference = 0,
                  storage = Map.empty, ttls = Map.empty\<rparr>
                 [Call (LimitWithInfo ''a'' 0), Call (LimitWithInfo ''a'' 4000),
                  Call (WouldLimit ''a'' 5000 5001)]))
         ''a'' True 12000) = Resolved [4000, 12000] \<and>
   storage
     (snd (InMemoryRateLimiter_getTimestamps
            (snd (InMemoryRateLimiter_run
                    \<lparr>interval = 10000, maxInInterval = 2, minDifference = 0,
                     storage = Map.empty, ttls = Map.empty\<rparr>
                    [Call (LimitWithInfo ''a'' 0), Call (LimitWithInfo ''a'' 4000),
                     Call (WouldLimit ''a'' 5000 5001)]))
            ''a'' True 12000)) ''a'' = Some [4000, 12000]"
proof -
  let ?opts = "\<lparr>opt_interval = Some 10, opt_maxInInterval = Some 2, opt_minDifference = None\<rparr>"
  let ?m0 = "\<lparr>interval = 10000, maxInInterval = 2, minDifference = 0,
               storage = Map.empty, ttls = Map.empty\<rparr> :: inMemoryLimiter"
  let ?evs = "[Call (LimitWithInfo ''a'' 0), Call (LimitWithInfo ''a'' 4000),
               Call (WouldLimit ''a'' 5000 5001)]"
  have c: "InMemoryRateLimiter ?opts = Inr ?m0"
    by (simp add: InMemoryRateLimiter_def RateLimiter_def millisecondsToMicroseconds_def)
  have s: "sorted (clock ?evs @ [12000])"
    by simp
  have p: "\<not> inheritedProperty ''a''"
    by (simp add: inheritedProperty_def)
  have v: "fst (InMemoryRateLimiter_getTimestamps (snd (InMemoryRateLimiter_run ?m0 ?evs))
                  ''a'' True 12000) = Resolved [4000, 12000]"
    by code_simp
  show ?thesis
    using stored_list_ascending [OF c s p, of True] c s p v
    unfolding Let_def by auto
qed
section \<open>The effect of the speculative calls on the in-memory state\<close>

lemma sameFrom_refl: "sameFrom now a a"
  by (simp add: sameFrom_def)

lemma sameFrom_window:
  assumes "sameFrom now a b" and "now \<le> t"
  shows "inWindow a t (stored a ident) = inWindow a t (stored b ident)"
    and "inWindow b t (stored b ident) = inWindow a t (stored b ident)"
proof -
  have w: "inWindow a now (stored a ident) = inWindow a now (stored b ident)"
    and c: "config a = config b"
    using assms(1) unfolding sameFrom_def by blast+
  show "inWindow a t (stored a ident) = inWindow a t (stored b ident)"
    by (rule inWindow_eq_later [OF w assms(2)])
  show "inWindow b t (stored b ident) = inWindow a t (stored b ident)"
    using inWindow_cong [OF c] by simp
qed

lemma sameFrom_readable:
  "sameFrom now a b \<Longrightarrow> storedOrEmpty a ident = None \<longleftrightarrow> storedOrEmpty b ident = None"
  unfolding sameFrom_def by blast

lemma sameFrom_getTimestamps:
  assumes "sameFrom now a b" and "now \<le> t"
  shows "sameFrom now (snd (InMemoryRateLimiter_getTimestamps a ident addNew t))
                      (snd (InMemoryRateLimiter_getTimestamps b ident addNew t))"
proof (cases "storedOrEmpty a ident = None")
  case True
  then have "storedOrEmpty b ident = None"
    using sameFrom_readable [OF assms(1)] by simp
  with True show ?thesis using assms(1) by (simp add: getTimestamps_thrown)
next
  case False
  then have rb: "storedOrEmpty b ident \<noteq> None"
    using sameFrom_readable [OF assms(1)] by simp
  note ra = False
  let ?a = "snd (InMemoryRateLimiter_getTimestamps a ident addNew t)"
  let ?b = "snd (InMemoryRateLimiter_getTimestamps b ident addNew t)"
  have c: "config a = config b" and tt: "ttls a = ttls b"
    and w: "\<And>i. inWindow a now (stored a i) = inWindow a now (stored b i)"
    and n: "\<And>i. storedOrEmpty a i = None \<longleftrightarrow> storedOrEmpty b i = None"
    using assms(1) unfolding sameFrom_def by blast+
  have iv: "interval a = interval b"
    using c by (simp add: config_def)
  have iw: "inWindow ?a = inWindow a" "inWindow b = inWindow a"
    using iv by (auto intro: inWindow_interval)
  have "stored ?a i = stored ?b i" if "i = ident" for i
    using that sameFrom_window [OF assms, of ident]
    by (simp add: getTimestamps_stored [OF ra] getTimestamps_stored [OF rb])
  then have "inWindow ?a now (stored ?a i) = inWindow ?a now (stored ?b i)" for i
    using w [of i]
    by (cases "i = ident")
       (simp_all add: iw getTimestamps_stored [OF ra] getTimestamps_stored [OF rb])
  moreover have "ttls ?a = ttls ?b"
    using tt iv by (simp add: getTimestamps_ttls [OF ra] getTimestamps_ttls [OF rb])
  moreover have "config ?a = config ?b"
    using c by simp
  moreover have "storedOrEmpty ?a i = None \<longleftrightarrow> storedOrEmpty ?b i = None" for i
  proof (cases "i = ident")
    case True
    then show ?thesis
      by (simp add: storedOrEmpty_None InMemoryRateLimiter_getTimestamps_eq [OF ra]
            InMemoryRateLimiter_getTimestamps_eq [OF rb])
  next
    case False
    then show ?thesis
      using n [of i] by (simp add: storedOrEmpty_None getTimestamps_other)
  qed
  ultimately show ?thesis unfolding sameFrom_def by blast
qed

lemma sameFrom_timer:
  assumes "sameFrom now a b"
  shows "sameFrom now (timeoutCallback a ident) (timeoutCallback b ident)"
proof -
  have iw: "inWindow (timeoutCallback a ident) = inWindow a"
    by (rule inWindow_interval) simp
  have "storedOrEmpty (timeoutCallback a ident) i = None \<longleftrightarrow>
        storedOrEmpty (timeoutCallback b ident) i = None" for i
    using sameFrom_readable [OF assms, of i]
    by (simp add: storedOrEmpty_None timeoutCallback_def)
  then show ?thesis
    using assms unfolding sameFrom_def
    by (simp add: timeoutCallback_stored timeoutCallback_ttls iw)
qed

lemma sameFrom_timerFires:
  assumes "sameFrom now a b"
  shows "sameFrom now (timerFires a ident t) (timerFires b ident t)"
proof -
  have "ttls a = ttls b" using assms unfolding sameFrom_def by blast
  then show ?thesis
    using assms sameFrom_timer [OF assms, of ident]
    by (simp add: timerFires_def split: option.splits)
qed

lemma sameFrom_call:
  assumes s: "sameFrom now a b" and r: "\<forall>t \<in> set (readings cl). now \<le> t"
  shows "fst (InMemoryRateLimiter_call a cl) = fst (InMemoryRateLimiter_call b cl) \<and>
         sameFrom now (snd (InMemoryRateLimiter_call a cl)) (snd (InMemoryRateLimiter_call b cl))"
proof -
  have ci: "calculateInfo a = calculateInfo b"
    using s unfolding sameFrom_def by (blast intro: calculateInfo_cong)
  have w: "inWindow a t (stored a ident) = inWindow b t (stored b ident)" if "now \<le> t" for t ident
    using sameFrom_window [OF s that, of ident] by simp
  have keep: "sameFrom now (snd (InMemoryRateLimiter_call a cl))
                (snd (InMemoryRateLimiter_call b cl))"
    unfolding call_mem_snd
    using r sameFrom_getTimestamps [OF s] sameFrom_timer [OF s]
    by (cases cl) simp_all
  have out: "fst (InMemoryRateLimiter_call a cl) = fst (InMemoryRateLimiter_call b cl)"
  proof (cases "storedOrEmpty a (identOf cl) = None \<and> (\<forall>ident. cl \<noteq> Clear ident)")
    case True
    then have "storedOrEmpty b (identOf cl) = None"
      using sameFrom_readable [OF s] by simp
    with True show ?thesis by (simp add: call_mem_thrown)
  next
    case False
    show ?thesis
    proof (cases cl)
      case (LimitWithInfo ident t)
      then have le: "now \<le> t" using r by simp
      have ra: "storedOrEmpty a ident \<noteq> None" using False LimitWithInfo by simp
      then have rb: "storedOrEmpty b ident \<noteq> None" using sameFrom_readable [OF s] by simp
      show ?thesis
        unfolding LimitWithInfo call_mem_LimitWithInfo [OF ra] call_mem_LimitWithInfo [OF rb]
        using w [OF le, of ident] by (simp add: ci)
    next
      case (WouldLimitWithInfo ident t cur)
      then have le: "now \<le> t" using r by simp
      have ra: "storedOrEmpty a ident \<noteq> None" using False WouldLimitWithInfo by simp
      then have rb: "storedOrEmpty b ident \<noteq> None" using sameFrom_readable [OF s] by simp
      show ?thesis
        unfolding WouldLimitWithInfo call_mem_WouldLimitWithInfo [OF ra]
          call_mem_WouldLimitWithInfo [OF rb]
        using w [OF le, of ident] by (simp add: ci)
    next
      case (Limit ident t)
      then have le: "now \<le> t" using r by simp
      have ra: "storedOrEmpty a ident \<noteq> None" using False Limit by simp
      then have rb: "storedOrEmpty b ident \<noteq> None" using sameFrom_readable [OF s] by simp
      show ?thesis
        unfolding Limit call_mem_Limit [OF ra] call_mem_Limit [OF rb]
        using w [OF le, of ident] by (simp add: ci)
    next
      case (WouldLimit ident t cur)
      then have le: "now \<le> t" using r by simp
      have ra: "storedOrEmpty a ident \<noteq> None" using False WouldLimit by simp
      then have rb: "storedOrEmpty b ident \<noteq> None" using sameFrom_readable [OF s] by simp
      show ?thesis
        unfolding WouldLimit call_mem_WouldLimit [OF ra] call_mem_WouldLimit [OF rb]
        using w [OF le, of ident] by (simp add: ci)
    next
      case (Clear ident)
      show ?thesis unfolding Clear call_mem_Clear by simp
    qed
  qed
  show ?thesis using out keep by blast
qed

lemma sameFrom_run:
  assumes "sameFrom now a b" and "\<forall>t \<in> set (clock evs). now \<le> t"
  shows "fst (InMemoryRateLimiter_run a evs) = fst (InMemoryRateLimiter_run b evs)"
  using assms
proof (induction evs arbitrary: a b)
  case Nil
  then show ?case by simp
next
  case (Cons ev evs)
  show ?case
  proof (cases ev)
    case (Call cl)
    have r: "\<forall>t \<in> set (readings cl). now \<le> t" and r': "\<forall>t \<in> set (clock evs). now \<le> t"
      using Cons.prems(2) Call by auto
    note step = sameFrom_call [OF Cons.prems(1) r]
    show ?thesis
      using step Cons.IH [OF conjunct2 [OF step] r']
      by (simp add: Call split_beta)
  next
    case (TimerFires ident t)
    have r': "\<forall>t \<in> set (clock evs). now \<le> t"
      using Cons.prems(2) TimerFires by auto
    show ?thesis
      using Cons.IH [OF sameFrom_timerFires [OF Cons.prems(1)] r']
      by (simp add: TimerFires)
  qed
qed

text \<open>
  Claim C5, as stated, fails.  \<open>wouldLimit\<close> writes the pruned list back, so the
  stored state changes; and when a later call reads an earlier clock value, its verdict
  changes too: after \<open>limit\<close> at 5 ms (interval 10 ms, one action allowed), a
  \<open>limit\<close> at 10 ms is blocked, but not if a \<open>wouldLimit\<close> at 20 ms came between.
\<close>

theorem wouldLimit_counterexample:
  "snd (limit InMemoryRateLimiter_getTimestamps
          \<lparr>interval = 10000, maxInInterval = 1, minDifference = 0,
           storage = Map.empty, ttls = Map.empty\<rparr> ''a'' 5000) =
     \<lparr>interval = 10000, maxInInterval = 1, minDifference = 0,
      storage = [''a'' \<mapsto> [5000]], ttls = [''a'' \<mapsto> 15000]\<rparr> \<and>
   storage (snd (wouldLimit InMemoryRateLimiter_getTimestamps
                   \<lparr>interval = 10000, maxInInterval = 1, minDifference = 0,
                    storage = [''a'' \<mapsto> [5000]], ttls = [''a'' \<mapsto> 15000]\<rparr>
                   ''a'' 20000 20000)) ''a'' = Some [] \<and>
   fst (limit InMemoryRateLimiter_getTimestamps
          \<lparr>interval = 10000, maxInInterval = 1, minDifference = 0,
           storage = [''a'' \<mapsto> [5000]], ttls = [''a'' \<mapsto> 15000]\<rparr> ''a'' 10000) =
     Resolved True \<and>
   fst (limit InMemoryRateLimiter_getTimestamps
          (snd (wouldLimit InMemoryRateLimiter_getTimestamps
                  \<lparr>interval = 10000, maxInInterval = 1, minDifference = 0,
                   storage = [''a'' \<mapsto> [5000]], ttls = [''a'' \<mapsto> 15000]\<rparr>
                  ''a'' 20000 20000)) ''a'' 10000) =
     Resolved False"
  by (simp add: evaluate)

text \<open>
  Claim C5, amended.  \<open>wouldLimit\<close> and \<open>wouldLimitWithInfo\<close> never record the
  candidate timestamp.  Their only effect on the in-memory state is to replace the
  identifier's stored list by its part inside the window trailing the clock reading;
  repeating the call at the same clock readings returns the same result and leaves that
  state as it is; and no sequence of later calls whose clock readings are not earlier than
  this one's returns anything different because of it.  The identifier names no inherited
  property: for one that does, the call fails and leaves the state as it is.
\<close>

theorem wouldLimit_only_prunes:
  assumes "\<not> inheritedProperty ident"
  shows
  "let result = wouldLimitWithInfo InMemoryRateLimiter_getTimestamps this ident now cur;
       pruned = this\<lparr> storage := (storage this)(ident \<mapsto> inWindow this now (stored this ident)) \<rparr>
   in snd result = pruned \<and>
      wouldLimit InMemoryRateLimiter_getTimestamps this ident now cur =
        (map_promise blocked (fst result), pruned) \<and>
      wouldLimitWithInfo InMemoryRateLimiter_getTimestamps pruned ident now cur = result \<and>
      (\<forall>evs. (\<forall>t \<in> set (clock evs). now \<le> t) \<longrightarrow>
         fst (InMemoryRateLimiter_run pruned evs) = fst (InMemoryRateLimiter_run this evs))"
proof -
  let ?pruned = "this\<lparr> storage := (storage this)(ident \<mapsto> inWindow this now (stored this ident)) \<rparr>"
  let ?result = "wouldLimitWithInfo InMemoryRateLimiter_getTimestamps this ident now cur"
  have rd: "storedOrEmpty this ident \<noteq> None" and rp: "storedOrEmpty ?pruned ident \<noteq> None"
    using assms by (simp_all add: storedOrEmpty_plain)
  have p: "snd (InMemoryRateLimiter_getTimestamps this ident False now) = ?pruned"
    by (simp add: InMemoryRateLimiter_getTimestamps_eq [OF rd])
  have r: "?result =
             (Resolved (calculateInfo this (inWindow this now (stored this ident) @ [cur]) True),
              ?pruned)"
    unfolding wouldLimitWithInfo_mem [OF rd] p ..
  have st: "stored ?pruned ident = inWindow this now (stored this ident)"
    by (simp add: stored_def)
  have iw: "inWindow ?pruned = inWindow this"
    by (rule inWindow_interval) simp
  have ci: "calculateInfo ?pruned = calculateInfo this"
    by (rule calculateInfo_cong) simp
  have again: "wouldLimitWithInfo InMemoryRateLimiter_getTimestamps ?pruned ident now cur = ?result"
    unfolding r unfolding wouldLimitWithInfo_mem [OF rp] iw ci st
    using inWindow_later [of now now this "stored this ident"]
    by (simp add: InMemoryRateLimiter_getTimestamps_eq [OF rp] iw st)
  have st': "stored ?pruned i =
      (if i = ident then inWindow this now (stored this ident) else stored this i)" for i
    by (simp add: stored_def)
  have cf: "config ?pruned = config this" and tt: "ttls ?pruned = ttls this"
    by simp_all
  have rn: "storedOrEmpty ?pruned i = None \<longleftrightarrow> storedOrEmpty this i = None" for i
    using assms by (cases "i = ident") (simp_all add: storedOrEmpty_None)
  have same: "sameFrom now ?pruned this"
    unfolding sameFrom_def iw st' cf tt
    using inWindow_later [of now now this "stored this ident"] rn
    by simp
  have w: "wouldLimit InMemoryRateLimiter_getTimestamps this ident now cur =
        (map_promise blocked (fst ?result), ?pruned)"
    unfolding wouldLimit_def r by simp
  show ?thesis
    unfolding Let_def using r again w sameFrom_run [OF same] by simp
qed

theorem wouldLimit_only_prunes_witness:
  "\<not> inheritedProperty ''a'' \<and>
   fst (InMemoryRateLimiter_run
          (snd (wouldLimitWithInfo InMemoryRateLimiter_getTimestamps
                  \<lparr>interval = 10000, maxInInterval = 1, minDifference = 0,
                   storage = [''a'' \<mapsto> [5000]], ttls = [''a'' \<mapsto> 15000]\<rparr>
                  ''a'' 20000 20000))
          [Call (Limit ''a'' 20000), Call (WouldLimit ''a'' 21000 21000)]) =
   fst (InMemoryRateLimiter_run
          \<lparr>interval = 10000, maxInInterval = 1, minDifference = 0,
           storage = [''a'' \<mapsto> [5000]], ttls = [''a'' \<mapsto> 15000]\<rparr>
          [Call (Limit ''a'' 20000), Call (WouldLimit ''a'' 21000 21000)])"
proof -
  have r: "\<forall>t \<in> set (clock [Call (Limit ''a'' 20000), Call (WouldLimit ''a'' 21000 21000)]).
             20000 \<le> t"
    by simp
  have p: "\<not> inheritedProperty ''a''"
    by (simp add: inheritedProperty_def)
  show ?thesis
    using wouldLimit_only_prunes
            [OF p, of "\<lparr>interval = 10000, maxInInterval = 1, minDifference = 0,
                  storage = [''a'' \<mapsto> [5000]], ttls = [''a'' \<mapsto> 15000]\<rparr>"
                20000 20000] r p
    unfolding Let_def by metis
qed
section \<open>The limiter on the shared store against the sliding window\<close>

lemma digitValue_digitChar: "d < 10 \<Longrightarrow> digitValue (digitChar d) = Some d"
proof -
  assume "d < 10"
  then have "d \<in> {0, 1, 2, 3, 4, 5, 6, 7, 8, 9}" by auto
  then show ?thesis
    by (auto simp: digitChar_def digitValue_def)
qed

lemma parseDigits_snoc:
  "parseDigits acc (cs @ [c]) =
     (case parseDigits acc cs of
        None \<Rightarrow> None
      | Some v \<Rightarrow> (case digitValue c of None \<Rightarrow> None | Some d \<Rightarrow> Some (10 * v + d)))"
  by (induction cs arbitrary: acc) (auto split: option.splits)

lemma parseDigits_digits: "parseDigits 0 (digits n) = Some n"
proof (induction n rule: digits.induct)
  case (1 n)
  show ?case
  proof (cases "n < 10")
    case True
    then show ?thesis
      by (subst digits.simps) (simp add: digitValue_digitChar)
  next
    case False
    then have "parseDigits 0 (digits (n div 10)) = Some (n div 10)"
      using "1.IH" by simp
    then show ?thesis
      using False
      by (subst digits.simps) (simp add: parseDigits_snoc digitValue_digitChar)
  qed
qed

lemma digits_not_Nil: "digits n \<noteq> []"
  by (subst digits.simps) simp

lemma Number_js_String_js: "Number_js (String_js i) = Some i"
proof (cases "i < 0")
  case True
  then show ?thesis
    by (simp add: Number_js_def String_js_def digits_not_Nil parseDigits_digits)
next
  case False
  obtain c cs where d: "digits (nat i) = c # cs"
    using digits_not_Nil [of "nat i"] by (cases "digits (nat i)") auto
  have "parseDigits 0 (c # cs) = Some (nat i)"
    using parseDigits_digits [of "nat i"] d by simp
  then have "digitValue c \<noteq> None"
    by (auto split: option.splits)
  then have "c \<noteq> CHR ''-''"
    by (auto simp: digitValue_def)
  then show ?thesis
    using False d parseDigits_digits [of "nat i"]
    by (simp add: Number_js_def String_js_def)
qed


lemma odd_items_flat:
  "map snd (filter (\<lambda>(i, e). i mod 2 \<noteq> 0) (enumerate (2 * k) (flat ps))) =
     map (\<lambda>(m, score). RBulk (String_js score)) ps"
proof (induction ps arbitrary: k)
  case Nil
  then show ?case by (simp add: flat_def)
next
  case (Cons p ps)
  obtain m score where p: "p = (m, score)" by (cases p)
  have "flat (p # ps) = RBulk m # RBulk (String_js score) # flat ps"
    by (simp add: flat_def p)
  then show ?case
    using Cons.IH [of "Suc k"] by (simp add: p)
qed

lemma those_map_Some: "those (map (\<lambda>x. Some (f x)) xs) = Some (map f xs)"
  by (induction xs) auto

lemma extractTimestamps_flat:
  "extractTimestampsFromZRangeResult (RMulti (flat ps)) = Inr (map (\<lambda>p. Some (snd p)) ps)"
proof -
  have "map Number_reply (map (\<lambda>(m, score). RBulk (String_js score)) ps) =
        map (\<lambda>p. Some (snd p)) ps"
    by (simp add: Number_reply_def Number_js_String_js split_beta)
  then show ?thesis
    using odd_items_flat [of 0 ps]
    by (simp add: extractTimestampsFromZRangeResult_def)
qed

lemma item_flat_1: "item (flat ps) 1 = Some (RMulti ys) \<Longrightarrow> False"
proof (cases ps)
  case Nil
  assume "item (flat ps) 1 = Some (RMulti ys)"
  then show False using Nil by (simp add: item_def flat_def)
next
  case (Cons p qs)
  assume a: "item (flat ps) 1 = Some (RMulti ys)"
  obtain m score where p: "p = (m, score)" by (cases p)
  show False using a Cons p by (simp add: item_def flat_def)
qed

lemma getZRangeResult_node: "getZRangeResult (RMulti (flat ps)) = Inr (RMulti (flat ps))"
proof (cases "item (flat ps) 1")
  case None
  then show ?thesis by (simp add: getZRangeResult_def)
next
  case (Some r)
  then show ?thesis
    using item_flat_1 [of ps] by (cases r) (auto simp: getZRangeResult_def)
qed

lemma getZRangeResult_ioredis:
  "getZRangeResult (RMulti [RNull, RMulti (flat ps)]) = Inr (RMulti (flat ps))"
  by (simp add: getZRangeResult_def item_def)

lemma zrange_all:
  "zrange key 0 (- 1) True db =
     (RMulti (flat (sort_key (\<lambda>(m, score). (score, m)) (storeMembers db key))), db)"
  by (simp add: zrange_def flat_def Let_def)

lemma storeMembers_setMembers:
  "storeMembers (setMembers db key ms) k = (if k = key then ms else storeMembers db k)"
  by (simp add: storeMembers_def setMembers_def)

lemma expire_setMembers:
  "snd (expire time key seconds (setMembers db key ms)) =
     (if ms = [] then db(key := None)
      else db(key \<mapsto> \<lparr> members = ms, expireAt = Some (time + 1000000 * seconds) \<rparr>))"
  by (simp add: expire_def setMembers_def)

lemma setMembers_twice:
  "expire time key seconds (setMembers (setMembers db key ms) key ms') =
   expire time key seconds (setMembers db key ms')"
  by (auto simp: expire_def setMembers_def)

lemma runBatch_read:
  "runBatch now [ZREMRANGEBYSCORE key 0 clearBefore, ZRANGE key 0 (- 1) True, EXPIRE key seconds] db =
     (let kept = filter (\<lambda>(m, score). \<not> (0 \<le> score \<and> score \<le> clearBefore)) (storeMembers db key)
      in ([RInteger (int (length (storeMembers db key)) - int (length kept)),
           RMulti (flat (sort_key (\<lambda>(m, score). (score, m)) kept)),
           fst (expire now key seconds (setMembers db key kept))],
          snd (expire now key seconds (setMembers db key kept))))"
  by (simp add: zremrangebyscore_def zrange_all Let_def storeMembers_setMembers split_beta)

lemma runBatch_add:
  "runBatch now [ZREMRANGEBYSCORE key 0 clearBefore, ZADD key (String_js t) uuid,
                 ZRANGE key 0 (- 1) True, EXPIRE key seconds] db =
     (let kept = filter (\<lambda>(m, score). \<not> (0 \<le> score \<and> score \<le> clearBefore)) (storeMembers db key);
          new = filter (\<lambda>(m, s). m \<noteq> uuid) kept @ [(uuid, t)]
      in ([RInteger (int (length (storeMembers db key)) - int (length kept)),
           RInteger (int (length (filter (\<lambda>(m, s). m \<noteq> uuid) kept)) + 1 - int (length kept)),
           RMulti (flat (sort_key (\<lambda>(m, score). (score, m)) new)),
           fst (expire now key seconds (setMembers db key new))],
          snd (expire now key seconds (setMembers db key new))))"
  by (simp add: zremrangebyscore_def zadd_def Number_js_String_js zrange_all Let_def
        storeMembers_setMembers setMembers_twice split_beta)

lemma execCallback_flat:
  assumes "item result (if addNew then 2 else 1) = Some (RMulti (flat ps)) \<or>
           item result (if addNew then 2 else 1) = Some (RMulti [RNull, RMulti (flat ps)])"
  shows "execCallback addNew None result = Resolved (map snd ps)"
  using assms
  by (auto simp: execCallback_def getZRangeResult_node getZRangeResult_ioredis
        extractTimestamps_flat those_map_Some)

lemma RedisRateLimiter_getTimestamps_eq:
  "RedisRateLimiter_getTimestamps this ident addNew (now, uuid) =
     (let key = makeKey this ident;
          db = dropExpired now (store (client this));
          new = nextMembers this addNew now uuid (storeMembers db key)
      in (Resolved (map snd (sort_key (\<lambda>(m, score). (score, m)) new)),
          this\<lparr> client := (client this)\<lparr> store :=
            (if new = [] then db(key := None)
             else db(key \<mapsto> \<lparr> members = new,
                              expireAt = Some (now + 1000000 * ttl this) \<rparr>)) \<rparr> \<rparr>))"
proof (cases addNew)
  case True
  show ?thesis
    unfolding RedisRateLimiter_getTimestamps_def exec_def
    using True
    by (cases "kind (client this)")
       (simp_all add: runBatch_add Let_def nextMembers_def expire_setMembers
          execCallback_flat item_def del: runBatch.simps)
next
  case False
  show ?thesis
    unfolding RedisRateLimiter_getTimestamps_def exec_def
    using False
    by (cases "kind (client this)")
       (simp_all add: runBatch_read Let_def nextMembers_def expire_setMembers
          execCallback_flat item_def del: runBatch.simps)
qed

lemma map_snd_sort_key:
  "map snd (sort_key (\<lambda>(m, score). (score, m)) (ps :: (string \<times> int) list)) = sort (map snd ps)"
proof -
  let ?f = "\<lambda>(m, score). (score :: int, m :: string)"
  let ?ys = "map snd (sort_key ?f ps)"
  have "sorted (map ?f (sort_key ?f ps))" by (rule sorted_sort_key)
  then have "sorted_wrt (\<lambda>x y. ?f x \<le> ?f y) (sort_key ?f ps)"
    by (simp add: sorted_map)
  then have "sorted_wrt (\<lambda>x y. snd x \<le> snd y) (sort_key ?f ps)"
    by (rule sorted_wrt_mono_rel [rotated]) (auto simp: less_eq_prod_def)
  then have "sorted ?ys"
    by (simp add: sorted_map)
  moreover have "mset ?ys = mset (map snd ps)"
    by simp
  ultimately show ?thesis
    by (metis properties_for_sort)
qed

lemma sort_snoc_max:
  assumes "\<forall>x \<in> set xs. x \<le> (y :: int)"
  shows "sort (xs @ [y]) = sort xs @ [y]"
proof -
  have "sorted (sort xs @ [y])"
    using assms by (simp add: sorted_append)
  moreover have "mset (sort xs @ [y]) = mset (xs @ [y])"
    by simp
  ultimately show ?thesis
    by (metis properties_for_sort)
qed

lemma inWindow_sort: "inWindow this now (sort xs) = sort (inWindow this now xs)"
  unfolding inWindow_def by (rule filter_sort)

lemma sort_sorted: "sorted xs \<Longrightarrow> sort xs = (xs :: int list)"
  by (rule sorted_sort_id)

lemma makeKey_inj [simp]: "makeKey this i = makeKey this j \<longleftrightarrow> i = j"
  by (simp add: makeKey_def)


lemma dropExpired_cases:
  "dropExpired now db k = db k \<or>
   (dropExpired now db k = None \<and> (\<exists>z due. db k = Some z \<and> expireAt z = Some due \<and> due \<le> now))"
  by (auto simp: dropExpired_def split: option.splits)

lemma afterDrop_cases:
  "afterDrop this now ident = keyMembers this ident \<or>
   (afterDrop this now ident = [] \<and> (\<exists>due. keyDue this ident = Some due \<and> due \<le> now))"
  using dropExpired_cases [of now "store (client this)" "makeKey this ident"]
  by (auto simp: afterDrop_def keyMembers_def keyDue_def storeMembers_def)

lemma makeKey_client [simp]: "makeKey (this\<lparr> client := cl \<rparr>) = makeKey this"
  by (simp add: fun_eq_iff makeKey_def)

lemma getTimestamps_redis_fst:
  "fst (RedisRateLimiter_getTimestamps this ident addNew (now, uuid)) =
     Resolved (sort (map snd (nextMembers this addNew now uuid (afterDrop this now ident))))"
  by (simp add: RedisRateLimiter_getTimestamps_eq Let_def map_snd_sort_key afterDrop_def)

lemma getTimestamps_redis_keyMembers:
  "keyMembers (snd (RedisRateLimiter_getTimestamps this ident addNew (now, uuid))) i =
     (if i = ident then nextMembers this addNew now uuid (afterDrop this now ident)
      else afterDrop this now i)"
  by (simp add: RedisRateLimiter_getTimestamps_eq Let_def keyMembers_def afterDrop_def
        storeMembers_def)

lemma getTimestamps_redis_keyDue:
  "keyDue (snd (RedisRateLimiter_getTimestamps this ident addNew (now, uuid))) i =
     (if i = ident
      then (if nextMembers this addNew now uuid (afterDrop this now ident) = [] then None
            else Some (now + 1000000 * ttl this))
      else (case dropExpired now (store (client this)) (makeKey this i) of
              None \<Rightarrow> None | Some z \<Rightarrow> expireAt z))"
  by (simp add: RedisRateLimiter_getTimestamps_eq Let_def keyDue_def afterDrop_def)

lemma getTimestamps_redis_fields [simp]:
  "interval (snd (RedisRateLimiter_getTimestamps this ident addNew (now, uuid))) = interval this"
  "ttl (snd (RedisRateLimiter_getTimestamps this ident addNew (now, uuid))) = ttl this"
  "config (snd (RedisRateLimiter_getTimestamps this ident addNew (now, uuid))) = config this"
  by (simp_all add: RedisRateLimiter_getTimestamps_eq Let_def config_def)

lemma keyDue_after_drop:
  assumes "(case dropExpired now (store (client this)) (makeKey this i) of
              None \<Rightarrow> None | Some z \<Rightarrow> expireAt z) = Some due"
  shows "keyDue this i = Some due"
proof -
  from assms obtain z where z: "dropExpired now (store (client this)) (makeKey this i) = Some z"
    "expireAt z = Some due"
    by (auto split: option.splits)
  then have "store (client this) (makeKey this i) = Some z"
    using dropExpired_cases [of now "store (client this)" "makeKey this i"] by auto
  then show ?thesis using z(2) by (simp add: keyDue_def)
qed

lemma afterDrop_window:
  assumes inv: "redisInv this history used c" and le: "c \<le> now"
  shows "inWindow this now (sort (map snd (afterDrop this now i))) =
         inWindow this now (attempts i history)"
proof -
  consider "afterDrop this now i = keyMembers this i"
    | due where "afterDrop this now i = []" "keyDue this i = Some due" "due \<le> now"
    using afterDrop_cases [of this now i] by blast
  then show ?thesis
  proof cases
    case 1
    have "inWindow this c (sort (map snd (keyMembers this i))) = inWindow this c (attempts i history)"
      using inv unfolding redisInv_def by blast
    then show ?thesis unfolding 1 using le by (rule inWindow_eq_later)
  next
    case 2
    have "\<forall>t \<in> set (attempts i history). t + interval this \<le> now"
      using inv 2(2,3) unfolding redisInv_def by fastforce
    then have "inWindow this now (attempts i history) = []"
      by (simp add: inWindow_empty_iff)
    then show ?thesis
      using 2(1) by simp
  qed
qed

lemma afterDrop_members:
  assumes inv: "redisInv this history used c" and "(m, score) \<in> set (afterDrop this now i)"
  shows "0 \<le> score \<and> m \<in> used"
proof -
  have "(m, score) \<in> set (keyMembers this i)"
    using assms(2) afterDrop_cases [of this now i] by auto
  then show ?thesis using inv unfolding redisInv_def by blast
qed

lemma nextMembers_scores:
  assumes inv: "redisInv this history used c" and le: "c \<le> now" and fresh: "uuid \<notin> used"
  shows "sort (map snd (nextMembers this addNew now uuid (afterDrop this now ident))) =
         inWindow this now (attempts ident history) @ (if addNew then [now] else [])"
proof -
  let ?old = "afterDrop this now ident"
  let ?kept = "filter (\<lambda>(m, score). \<not> (0 \<le> score \<and> score \<le> now - interval this)) ?old"
  have old: "\<And>m score. (m, score) \<in> set ?old \<Longrightarrow> 0 \<le> score \<and> m \<noteq> uuid"
    using afterDrop_members [OF inv] fresh by blast
  have k1: "?kept = filter (\<lambda>p. now - interval this < snd p) ?old"
    by (rule filter_cong) (use old in auto)
  have "map snd ?kept = inWindow this now (map snd ?old)"
    unfolding k1 inWindow_def by (simp add: filter_map comp_def)
  then have "sort (map snd ?kept) = inWindow this now (sort (map snd ?old))"
    by (simp add: inWindow_sort)
  then have w: "sort (map snd ?kept) = inWindow this now (attempts ident history)"
    using afterDrop_window [OF inv le, of ident] by simp
  have k2: "filter (\<lambda>(m, s). m \<noteq> uuid) ?kept = ?kept"
    by (rule filter_True) (use old in auto)
  have past: "\<forall>t \<in> set (map snd ?kept). t \<le> now"
  proof
    fix t assume "t \<in> set (map snd ?kept)"
    then have "t \<in> set (sort (map snd ?kept))" by simp
    then have "t \<in> set (attempts ident history)"
      unfolding w by (simp add: inWindow_def)
    then have "t \<le> c" using inv unfolding redisInv_def by blast
    then show "t \<le> now" using le by simp
  qed
  show ?thesis
  proof (cases addNew)
    case True
    then have "nextMembers this addNew now uuid ?old = ?kept @ [(uuid, now)]"
      unfolding nextMembers_def Let_def using k2 by simp
    then show ?thesis
      using sort_snoc_max [OF past] w True by simp
  next
    case False
    then have "nextMembers this addNew now uuid ?old = ?kept"
      unfolding nextMembers_def Let_def by simp
    then show ?thesis using w False by simp
  qed
qed

lemma nextMembers_members:
  assumes inv: "redisInv this history used c" and now: "0 \<le> now"
    and "(m, score) \<in> set (nextMembers this addNew now uuid (afterDrop this now ident))"
  shows "0 \<le> score \<and> m \<in> insert uuid used"
  using assms(3) afterDrop_members [OF inv, of _ _ now ident] now
  unfolding nextMembers_def Let_def
  by (auto split: if_splits)

lemma redisInv_later:
  assumes "redisInv this history used c" and "c \<le> c'"
  shows "redisInv this history used c'"
proof -
  have "inWindow this c' (sort (map snd (keyMembers this i))) =
        inWindow this c' (attempts i history)" for i
    using assms inWindow_eq_later unfolding redisInv_def by blast
  moreover have "\<forall>t \<in> set (attempts i history). 0 \<le> t \<and> t \<le> c'" for i
    using assms unfolding redisInv_def by (meson order_trans)
  ultimately show ?thesis
    using assms(1) unfolding redisInv_def by blast
qed

lemma redisInv_getTimestamps:
  assumes inv: "redisInv this history used c" and le: "c \<le> now" and nn: "0 \<le> now"
    and fresh: "uuid \<notin> used"
    and rec: "\<And>i. attempts i history' =
        (if i = ident \<and> addNew then attempts i history @ [now] else attempts i history)"
  shows "redisInv (snd (RedisRateLimiter_getTimestamps this ident addNew (now, uuid)))
           history' (insert uuid used) now"
proof -
  let ?lim = "snd (RedisRateLimiter_getTimestamps this ident addNew (now, uuid))"
  let ?new = "nextMembers this addNew now uuid (afterDrop this now ident)"
  have iw: "inWindow ?lim = inWindow this"
    by (rule inWindow_interval) simp
  have ttl: "interval this \<le> 1000000 * ttl this"
    using inv unfolding redisInv_def by blast
  have old: "\<And>i. sorted (attempts i history)"
    "\<And>i t. t \<in> set (attempts i history) \<Longrightarrow> 0 \<le> t \<and> t \<le> c"
    using inv unfolding redisInv_def by blast+
  have due: "\<And>i d t. keyDue this i = Some d \<Longrightarrow> t \<in> set (attempts i history) \<Longrightarrow>
      t + interval this \<le> d"
    using inv unfolding redisInv_def by blast
  have b: "inWindow this now (sort (map snd (keyMembers ?lim i))) =
           inWindow this now (attempts i history')" for i
  proof (cases "i = ident")
    case True
    show ?thesis
      using nextMembers_scores [OF inv le fresh, of addNew ident]
        inWindow_later [of now now this "attempts ident history"]
      by (simp add: True getTimestamps_redis_keyMembers rec)
  next
    case False
    then show ?thesis
      using afterDrop_window [OF inv le, of i]
      by (simp add: getTimestamps_redis_keyMembers rec)
  qed
  have c: "t + interval this \<le> d"
    if "keyDue ?lim i = Some d" and "t \<in> set (attempts i history')" for i d t
  proof (cases "i = ident")
    case True
    then have d: "d = now + 1000000 * ttl this"
      using that(1) by (simp add: getTimestamps_redis_keyDue split: if_splits)
    have "t \<le> now" using that(2) old(2) [of t i] le by (auto simp: rec split: if_splits)
    then show ?thesis using d ttl by linarith
  next
    case False
    then have "keyDue this i = Some d"
      using that(1) keyDue_after_drop [of now this i d]
      by (simp add: getTimestamps_redis_keyDue)
    then show ?thesis using due [of i d t] that(2) False by (simp add: rec)
  qed
  have d: "sorted (attempts i history') \<and> (\<forall>t \<in> set (attempts i history'). 0 \<le> t \<and> t \<le> now)"
    for i
  proof -
    have p: "\<forall>t \<in> set (attempts i history). 0 \<le> t \<and> t \<le> now"
      using old(2) [of _ i] le by fastforce
    show ?thesis
      using old(1) [of i] p nn by (auto simp: rec sorted_append)
  qed
  have e: "0 \<le> score \<and> m \<in> insert uuid used"
    if "(m, score) \<in> set (keyMembers ?lim i)" for i m score
  proof (cases "i = ident")
    case True
    then show ?thesis
      using that nextMembers_members [OF inv nn, of m score addNew uuid ident]
      by (simp add: getTimestamps_redis_keyMembers)
  next
    case False
    then show ?thesis
      using that afterDrop_members [OF inv, of m score now i]
      by (simp add: getTimestamps_redis_keyMembers)
  qed
  have e': "\<forall>p \<in> set (keyMembers ?lim i). 0 \<le> snd p \<and> fst p \<in> insert uuid used" for i
  proof
    fix p assume "p \<in> set (keyMembers ?lim i)"
    then have "(fst p, snd p) \<in> set (keyMembers ?lim i)" by simp
    then show "0 \<le> snd p \<and> fst p \<in> insert uuid used" by (rule e)
  qed
  show ?thesis
    unfolding redisInv_def iw
    using ttl b c d e' by (simp add: split_beta)
qed

lemma clear_redis_keyMembers:
  "keyMembers (snd (RedisRateLimiter_clear this ident)) i =
     (if i = ident then [] else keyMembers this i)"
  by (simp add: RedisRateLimiter_clear_def Let_def del_def keyMembers_def storeMembers_def)

lemma clear_redis_keyDue:
  "keyDue (snd (RedisRateLimiter_clear this ident)) i =
     (if i = ident then None else keyDue this i)"
  by (simp add: RedisRateLimiter_clear_def Let_def del_def keyDue_def)

lemma clear_redis_fields [simp]:
  "interval (snd (RedisRateLimiter_clear this ident)) = interval this"
  "ttl (snd (RedisRateLimiter_clear this ident)) = ttl this"
  "config (snd (RedisRateLimiter_clear this ident)) = config this"
  "fst (RedisRateLimiter_clear this ident) = Resolved ()"
  by (simp_all add: RedisRateLimiter_clear_def Let_def config_def)

lemma redisInv_clear:
  assumes inv: "redisInv this history used c"
    and rec: "\<And>i. attempts i history' = (if i = ident then [] else attempts i history)"
  shows "redisInv (snd (RedisRateLimiter_clear this ident)) history' (insert uuid used) c"
proof -
  have iw: "inWindow (snd (RedisRateLimiter_clear this ident)) = inWindow this"
    by (rule inWindow_interval) simp
  show ?thesis
    using inv unfolding redisInv_def iw
    by (auto simp: clear_redis_keyMembers clear_redis_keyDue rec)
qed

lemma limitWithInfo_redis:
  "limitWithInfo RedisRateLimiter_getTimestamps this ident (now, uuid) =
     (Resolved (calculateInfo this
             (sort (map snd (nextMembers this True now uuid (afterDrop this now ident)))) False),
      snd (RedisRateLimiter_getTimestamps this ident True (now, uuid)))"
proof -
  obtain r lim where g: "RedisRateLimiter_getTimestamps this ident True (now, uuid) = (r, lim)"
    by fastforce
  have r: "r = Resolved (sort (map snd (nextMembers this True now uuid (afterDrop this now ident))))"
    using getTimestamps_redis_fst [of this ident True now uuid] g by simp
  have "config lim = config this"
    using getTimestamps_redis_fields(3) [of this ident True now uuid] g by simp
  then have "calculateInfo lim = calculateInfo this"
    by (rule calculateInfo_cong)
  then show ?thesis
    unfolding limitWithInfo_def g r by simp
qed

lemma wouldLimitWithInfo_redis:
  "wouldLimitWithInfo RedisRateLimiter_getTimestamps this ident (now, uuid) cur =
     (Resolved (calculateInfo this
             (sort (map snd (nextMembers this False now uuid (afterDrop this now ident))) @ [cur])
             True),
      snd (RedisRateLimiter_getTimestamps this ident False (now, uuid)))"
proof -
  obtain r lim where g: "RedisRateLimiter_getTimestamps this ident False (now, uuid) = (r, lim)"
    by fastforce
  have r: "r = Resolved (sort (map snd (nextMembers this False now uuid (afterDrop this now ident))))"
    using getTimestamps_redis_fst [of this ident False now uuid] g by simp
  have "config lim = config this"
    using getTimestamps_redis_fields(3) [of this ident False now uuid] g by simp
  then have "calculateInfo lim = calculateInfo this"
    by (rule calculateInfo_cong)
  then show ?thesis
    unfolding wouldLimitWithInfo_def g r by simp
qed

lemma call_redis_LimitWithInfo:
  "RedisRateLimiter_call this (LimitWithInfo ident now, uuid) =
     (Info (calculateInfo this
             (sort (map snd (nextMembers this True now uuid (afterDrop this now ident)))) False),
      snd (RedisRateLimiter_getTimestamps this ident True (now, uuid)))"
  by (simp add: limitWithInfo_redis settle_def)

lemma call_redis_Limit:
  "RedisRateLimiter_call this (Limit ident now, uuid) =
     (Verdict (blocked (calculateInfo this
             (sort (map snd (nextMembers this True now uuid (afterDrop this now ident)))) False)),
      snd (RedisRateLimiter_getTimestamps this ident True (now, uuid)))"
  by (simp add: limit_def limitWithInfo_redis settle_def)

lemma call_redis_WouldLimitWithInfo:
  "RedisRateLimiter_call this (WouldLimitWithInfo ident now cur, uuid) =
     (Info (calculateInfo this
             (sort (map snd (nextMembers this False now uuid (afterDrop this now ident))) @ [cur])
             True),
      snd (RedisRateLimiter_getTimestamps this ident False (now, uuid)))"
  by (simp add: wouldLimitWithInfo_redis settle_def)

lemma call_redis_WouldLimit:
  "RedisRateLimiter_call this (WouldLimit ident now cur, uuid) =
     (Verdict (blocked (calculateInfo this
             (sort (map snd (nextMembers this False now uuid (afterDrop this now ident))) @ [cur])
             True)),
      snd (RedisRateLimiter_getTimestamps this ident False (now, uuid)))"
  by (simp add: wouldLimit_def wouldLimitWithInfo_redis settle_def)

lemma call_redis_Clear:
  "RedisRateLimiter_call this (Clear ident, uuid) =
     (Cleared, snd (RedisRateLimiter_clear this ident))"
  by (simp add: settle_def RedisRateLimiter_clear_def Let_def)

lemma call_redis_config [simp]:
  "config (snd (RedisRateLimiter_call this (cl, uuid))) = config this"
  by (cases cl)
     (simp_all only: call_redis_LimitWithInfo call_redis_Limit call_redis_WouldLimitWithInfo
        call_redis_WouldLimit call_redis_Clear snd_conv getTimestamps_redis_fields
        clear_redis_fields)

lemma redisInv_call:
  assumes inv: "redisInv this history used c" and mono: "sorted (c # readings cl)"
    and nn: "\<forall>t \<in> set (readings cl). 0 \<le> t" and fresh: "uuid \<notin> used"
  shows "fst (RedisRateLimiter_call this (cl, uuid)) = expected (config this) history cl \<and>
         redisInv (snd (RedisRateLimiter_call this (cl, uuid))) (history @ [cl])
           (insert uuid used) (last (c # readings cl))"
proof (cases cl)
  case (LimitWithInfo ident now)
  then have le: "c \<le> now" "0 \<le> now" using mono nn by simp_all
  have rec: "\<And>i. attempts i (history @ [cl]) =
      (if i = ident \<and> True then attempts i history @ [now] else attempts i history)"
    by (auto simp: attempts_snoc LimitWithInfo)
  show ?thesis
    unfolding LimitWithInfo call_redis_LimitWithInfo
    using redisInv_getTimestamps [OF inv le fresh rec]
      nextMembers_scores [OF inv le(1) fresh, of True ident]
    by (simp add: LimitWithInfo)
next
  case (Limit ident now)
  then have le: "c \<le> now" "0 \<le> now" using mono nn by simp_all
  have rec: "\<And>i. attempts i (history @ [cl]) =
      (if i = ident \<and> True then attempts i history @ [now] else attempts i history)"
    by (auto simp: attempts_snoc Limit)
  show ?thesis
    unfolding Limit call_redis_Limit
    using redisInv_getTimestamps [OF inv le fresh rec]
      nextMembers_scores [OF inv le(1) fresh, of True ident]
    by (simp add: Limit)
next
  case (WouldLimitWithInfo ident now cur)
  then have le: "c \<le> now" "0 \<le> now" and cur: "now \<le> cur" using mono nn by simp_all
  have rec: "\<And>i. attempts i (history @ [cl]) =
      (if i = ident \<and> False then attempts i history @ [now] else attempts i history)"
    by (auto simp: attempts_snoc WouldLimitWithInfo)
  show ?thesis
    unfolding WouldLimitWithInfo call_redis_WouldLimitWithInfo
    using redisInv_later [OF redisInv_getTimestamps [OF inv le fresh rec] cur]
      nextMembers_scores [OF inv le(1) fresh, of False ident]
    by (simp add: WouldLimitWithInfo)
next
  case (WouldLimit ident now cur)
  then have le: "c \<le> now" "0 \<le> now" and cur: "now \<le> cur" using mono nn by simp_all
  have rec: "\<And>i. attempts i (history @ [cl]) =
      (if i = ident \<and> False then attempts i history @ [now] else attempts i history)"
    by (auto simp: attempts_snoc WouldLimit)
  show ?thesis
    unfolding WouldLimit call_redis_WouldLimit
    using redisInv_later [OF redisInv_getTimestamps [OF inv le fresh rec] cur]
      nextMembers_scores [OF inv le(1) fresh, of False ident]
    by (simp add: WouldLimit)
next
  case (Clear ident)
  have rec: "\<And>i. attempts i (history @ [cl]) = (if i = ident then [] else attempts i history)"
    by (auto simp: attempts_snoc Clear)
  show ?thesis
    unfolding Clear call_redis_Clear
    using redisInv_clear [OF inv rec, of uuid] by (simp add: Clear)
qed

lemma redisInv_run:
  assumes "redisInv this history used c"
    and "sorted (c # concat (map readings (map fst cus)))"
    and "\<forall>t \<in> set (concat (map readings (map fst cus))). 0 \<le> t"
    and "distinct (map snd cus)" and "set (map snd cus) \<inter> used = {}"
  shows "fst (RedisRateLimiter_run this cus) =
           expectedOutcomes (config this) history (map fst cus) \<and>
         redisInv (snd (RedisRateLimiter_run this cus)) (history @ map fst cus)
           (used \<union> set (map snd cus)) (last (c # concat (map readings (map fst cus))))"
  using assms
proof (induction cus arbitrary: this history used c)
  case Nil
  then show ?case by simp
next
  case (Cons cu cus)
  obtain cl uuid where cu: "cu = (cl, uuid)" by (cases cu)
  define c' where "c' = last (c # readings cl)"
  define lim where "lim = snd (RedisRateLimiter_call this (cl, uuid))"
  have s: "sorted (c # readings cl @ concat (map readings (map fst cus)))"
    using Cons.prems(2) cu by simp
  have nn: "\<forall>t \<in> set (readings cl). 0 \<le> t"
    and nn': "\<forall>t \<in> set (concat (map readings (map fst cus))). 0 \<le> t"
    using Cons.prems(3) cu by auto
  have fresh: "uuid \<notin> used" using Cons.prems(5) cu by auto
  have step: "fst (RedisRateLimiter_call this (cl, uuid)) = expected (config this) history cl"
    "redisInv lim (history @ [cl]) (insert uuid used) c'"
    using redisInv_call [OF Cons.prems(1) sorted_readings(1) [OF s] nn fresh]
    unfolding c'_def lim_def by simp_all
  have s': "sorted (c' # concat (map readings (map fst cus)))"
    unfolding c'_def by (rule sorted_readings(2) [OF s])
  have d: "distinct (map snd cus)" and u: "set (map snd cus) \<inter> insert uuid used = {}"
    using Cons.prems(4,5) cu by auto
  have cfg: "config lim = config this"
    unfolding lim_def by simp
  have ih: "fst (RedisRateLimiter_run lim cus) =
      expectedOutcomes (config this) (history @ [cl]) (map fst cus)"
    "redisInv (snd (RedisRateLimiter_run lim cus)) ((history @ [cl]) @ map fst cus)
       (insert uuid used \<union> set (map snd cus))
       (last (c' # concat (map readings (map fst cus))))"
    using Cons.IH [OF step(2) s' nn' d u] cfg by simp_all
  have l: "last (c # concat (map readings (map fst (cu # cus)))) =
           last (c' # concat (map readings (map fst cus)))"
    unfolding cu c'_def by (simp add: last_append)
  have run: "RedisRateLimiter_run this (cu # cus) =
      (fst (RedisRateLimiter_call this (cl, uuid)) # fst (RedisRateLimiter_run lim cus),
       snd (RedisRateLimiter_run lim cus))"
    unfolding cu lim_def by (simp add: split_beta)
  have un: "used \<union> set (map snd (cu # cus)) = insert uuid used \<union> set (map snd cus)"
    unfolding cu by auto
  show ?case
    unfolding l run un using step(1) ih by (simp add: cu)
qed

lemma seconds_bound: "us \<le> 1000000 * microsecondsToSeconds us"
proof -
  have "1000000 * ((- us) div 1000000) + (- us) mod 1000000 = - us" by simp
  moreover have "0 \<le> (- us) mod 1000000" by simp
  ultimately show ?thesis unfolding microsecondsToSeconds_def by linarith
qed

lemma redisInv_initial:
  assumes "RedisRateLimiter cl ns options = Inr this" and "store cl = Map.empty"
  shows "redisInv this [] {} c"
proof -
  obtain base where "RateLimiter options = Inr base"
    and t: "this = \<lparr> interval = interval base, maxInInterval = maxInInterval base,
                minDifference = minDifference base,
                client = cl, namespace = ns,
                ttl = microsecondsToSeconds (interval base) \<rparr>"
    using assms(1) by (auto simp: RedisRateLimiter_def split: sum.splits)
  have "keyMembers this i = []" and "keyDue this i = None" for i
    using assms(2) by (simp_all add: t keyMembers_def keyDue_def storeMembers_def)
  moreover have "interval this \<le> 1000000 * ttl this"
    using seconds_bound [of "interval base"] by (simp add: t)
  ultimately show ?thesis by (simp add: redisInv_def)
qed

lemma sorted_le_last: "sorted xs \<Longrightarrow> x \<in> set xs \<Longrightarrow> x \<le> (last xs :: int)"
  by (induction xs) auto

lemma sorted_call_readings:
  assumes "sorted (c # clock evs)"
  shows "sorted (c # concat (map readings (callsOf evs)))"
  using assms
proof (induction evs arbitrary: c rule: callsOf.induct)
  case 1
  then show ?case by simp
next
  case (2 cl evs)
  have s: "sorted (c # readings cl @ clock evs)" using "2.prems" by simp
  have a: "sorted (last (c # readings cl) # concat (map readings (callsOf evs)))"
    by (rule "2.IH" [OF sorted_readings(2) [OF s]])
  have b: "sorted (c # readings cl)" by (rule sorted_readings(1) [OF s])
  have "x \<le> y" if "x \<in> set (c # readings cl)"
    and "y \<in> set (concat (map readings (callsOf evs)))" for x y
  proof -
    have "x \<le> last (c # readings cl)" by (rule sorted_le_last [OF b that(1)])
    moreover have "last (c # readings cl) \<le> y"
      using a that(2) unfolding sorted_simps by blast
    ultimately show ?thesis by simp
  qed
  moreover have "sorted (concat (map readings (callsOf evs)))"
    using a unfolding sorted_simps by blast
  ultimately have "sorted ((c # readings cl) @ concat (map readings (callsOf evs)))"
    unfolding sorted_append using b by blast
  then show ?case by simp
next
  case (3 ident t evs)
  then have "c \<le> t" "sorted (t # clock evs)" by simp_all
  then have "sorted (t # concat (map readings (callsOf evs)))"
    using "3.IH" by blast
  then show ?case using \<open>c \<le> t\<close> by fastforce
qed


lemma call_readings_subset: "set (concat (map readings (callsOf evs))) \<subseteq> set (clock evs)"
  by (induction evs rule: callsOf.induct) auto

lemma configs_agree:
  assumes "InMemoryRateLimiter options = Inr mem" and "RedisRateLimiter cl ns options = Inr red"
  shows "config mem = config red"
  using assms
  by (auto simp: InMemoryRateLimiter_def RedisRateLimiter_def config_def split: sum.splits)

lemma nonneg_sorted_from_zero:
  assumes "sorted xs" and "\<forall>t \<in> set xs. (0 :: int) \<le> t"
  shows "sorted (0 # xs)"
  using assms by simp

lemma run_redis_config [simp]:
  "config (snd (RedisRateLimiter_run this cus)) = config this"
proof (induction cus arbitrary: this)
  case Nil
  then show ?case by simp
next
  case (Cons cu cus)
  obtain cl uuid where cu: "cu = (cl, uuid)" by (cases cu)
  show ?case
    using Cons.IH [of "snd (RedisRateLimiter_call this (cl, uuid))"]
    by (simp add: cu split_beta del: RedisRateLimiter_call.simps)
qed

lemma last_bounded:
  assumes "\<forall>t \<in> set xs. t \<le> now" and "(0 :: int) \<le> now"
  shows "last (0 # xs) \<le> now"
proof -
  have "last (0 # xs) \<in> set (0 # xs)" by (rule last_in_set) simp
  then show ?thesis using assms by auto
qed

lemmas evaluate_redis =
  call_redis_LimitWithInfo call_redis_Limit call_redis_WouldLimitWithInfo
  call_redis_WouldLimit call_redis_Clear RedisRateLimiter_getTimestamps_eq
  RedisRateLimiter_clear_def del_def nextMembers_def afterDrop_def dropExpired_def
  storeMembers_def makeKey_def calculateInfo_def windowWait_def at_def Let_def
  microsecondsToMilliseconds_def



section \<open>The numbers of a verdict\<close>

lemma ceil_nonneg: "- 1000 < us \<Longrightarrow> 0 \<le> microsecondsToMilliseconds us"
  using ceil_bounds [of us] by linarith

lemma actionsRemaining_nonneg: "0 \<le> actionsRemaining (calculateInfo this timestamps isWould)"
  by (simp add: calculateInfo_def Let_def)

lemma committed_nonneg:
  assumes "0 \<le> minDifference this"
    and "millisecondsUntilAllowed (calculateInfo this timestamps False) = Some ms"
  shows "0 \<le> ms"
proof -
  from assms(2) obtain us where "ms = microsecondsToMilliseconds (max (minDifference this) us)"
    by (auto simp: calculateInfo_def Let_def split: if_splits)
  then show ?thesis using assms(1) ceil_nonneg [of "max (minDifference this) us"] by simp
qed

text \<open>
  Claim C9: every verdict of \<open>limitWithInfo\<close> and \<open>wouldLimitWithInfo\<close> has
  \<open>millisecondsUntilAllowed >= 0\<close> and \<open>actionsRemaining >= 0\<close>.  The code departs
  from it in the speculative branch of \<open>calculateInfo\<close>, which returns the window-based
  wait as it is; the committed branch takes the maximum with \<open>minDifference\<close>, which is
  not negative, and \<open>actionsRemaining\<close> is floored at zero in both.

  On a fresh in-memory limiter (interval 10 ms, three actions), after \<open>limitWithInfo\<close>
  at 0, a \<open>wouldLimitWithInfo\<close> whose \<open>getTimestamps\<close> reads the clock at 9.999 ms
  and whose candidate timestamp is read at 11 ms reports
  \<open>millisecondsUntilAllowed = -1\<close>.  In the scenario of the package's test \<open>returns
  info about limiting\<close> (\<open>limitWithInfo\<close> at 0, 4, 5 and 8 ms, \<open>wouldLimitWithInfo\<close>
  at 11 and 17 ms), the last call reports 1 where the test expects 0, and with a
  \<open>minDifference\<close> of 2 ms it reports 1 where the test expects 2.
\<close>

theorem speculative_wait_negative:
  "fst (InMemoryRateLimiter_run
          \<lparr>interval = 10000, maxInInterval = 3, minDifference = 0,
           storage = Map.empty, ttls = Map.empty\<rparr>
          [Call (LimitWithInfo ''1'' 0), Call (WouldLimitWithInfo ''1'' 9999 11000)]) =
     [Info \<lparr>blocked = False, blockedDueToCount = False, blockedDueToMinDifference = False,
            millisecondsUntilAllowed = Some 0, actionsRemaining = 2\<rparr>,
      Info \<lparr>blocked = False, blockedDueToCount = False, blockedDueToMinDifference = False,
            millisecondsUntilAllowed = Some (- 1), actionsRemaining = 1\<rparr>] \<and>
   last (fst (InMemoryRateLimiter_run
          \<lparr>interval = 10000, maxInInterval = 3, minDifference = 0,
           storage = Map.empty, ttls = Map.empty\<rparr>
          [Call (LimitWithInfo ''1'' 0), Call (LimitWithInfo ''1'' 4000),
           Call (LimitWithInfo ''1'' 5000), Call (LimitWithInfo ''1'' 8000),
           Call (WouldLimitWithInfo ''1'' 11000 11000),
           Call (WouldLimitWithInfo ''1'' 17000 17000)])) =
     Info \<lparr>blocked = False, blockedDueToCount = False, blockedDueToMinDifference = False,
           millisecondsUntilAllowed = Some 1, actionsRemaining = 1\<rparr> \<and>
   last (fst (InMemoryRateLimiter_run
          \<lparr>interval = 10000, maxInInterval = 3, minDifference = 2000,
           storage = Map.empty, ttls = Map.empty\<rparr>
          [Call (LimitWithInfo ''1'' 0), Call (LimitWithInfo ''1'' 4000),
           Call (LimitWithInfo ''1'' 5000), Call (LimitWithInfo ''1'' 8000),
           Call (WouldLimitWithInfo ''1'' 11000 11000),
           Call (WouldLimitWithInfo ''1'' 17000 17000)])) =
     Info \<lparr>blocked = False, blockedDueToCount = False, blockedDueToMinDifference = False,
           millisecondsUntilAllowed = Some 1, actionsRemaining = 1\<rparr>"
proof -
  have a: "fst (InMemoryRateLimiter_run
          \<lparr>interval = 10000, maxInInterval = 3, minDifference = 0,
           storage = Map.empty, ttls = Map.empty\<rparr>
          [Call (LimitWithInfo ''1'' 0), Call (WouldLimitWithInfo ''1'' 9999 11000)]) =
     [Info \<lparr>blocked = False, blockedDueToCount = False, blockedDueToMinDifference = False,
            millisecondsUntilAllowed = Some 0, actionsRemaining = 2\<rparr>,
      Info \<lparr>blocked = False, blockedDueToCount = False, blockedDueToMinDifference = False,
            millisecondsUntilAllowed = Some (- 1), actionsRemaining = 1\<rparr>]"
    by code_simp
  have b: "last (fst (InMemoryRateLimiter_run
          \<lparr>interval = 10000, maxInInterval = 3, minDifference = 0,
           storage = Map.empty, ttls = Map.empty\<rparr>
          [Call (LimitWithInfo ''1'' 0), Call (LimitWithInfo ''1'' 4000),
           Call (LimitWithInfo ''1'' 5000), Call (LimitWithInfo ''1'' 8000),
           Call (WouldLimitWithInfo ''1'' 11000 11000),
           Call (WouldLimitWithInfo ''1'' 17000 17000)])) =
     Info \<lparr>blocked = False, blockedDueToCount = False, blockedDueToMinDifference = False,
           millisecondsUntilAllowed = Some 1, actionsRemaining = 1\<rparr>"
    by code_simp
  have c: "last (fst (InMemoryRateLimiter_run
          \<lparr>interval = 10000, maxInInterval = 3, minDifference = 2000,
           storage = Map.empty, ttls = Map.empty\<rparr>
          [Call (LimitWithInfo ''1'' 0), Call (LimitWithInfo ''1'' 4000),
           Call (LimitWithInfo ''1'' 5000), Call (LimitWithInfo ''1'' 8000),
           Call (WouldLimitWithInfo ''1'' 11000 11000),
           Call (WouldLimitWithInfo ''1'' 17000 17000)])) =
     Info \<lparr>blocked = False, blockedDueToCount = False, blockedDueToMinDifference = False,
           millisecondsUntilAllowed = Some 1, actionsRemaining = 1\<rparr>"
    by code_simp
  show ?thesis using a b c by blast
qed
section \<open>Expiry at the window boundary\<close>

lemma nextMembers_boundary:
  assumes "0 \<le> score" and "score \<le> now - interval this" and "0 < interval this"
  shows "(m, score) \<notin> set (nextMembers this addNew now uuid old)"
  using assms unfolding nextMembers_def Let_def by auto

text \<open>
  Claim C7.  On every \<open>getTimestamps\<close>, a timestamp exactly at \<open>now - interval\<close> is
  expired.  The in-memory limiter keeps, returns and stores exactly the stored timestamps
  that are strictly greater than \<open>now - interval\<close> (followed by \<open>now\<close> when it adds
  one); this is for an identifier that names no inherited property, since for one that
  does the call fails and keeps nothing.  The limiter on the shared store removes exactly
  the members whose score lies between 0 and \<open>now - interval\<close>, both included, so a
  member whose score is the boundary is gone from the key and from the returned list.
\<close>

theorem boundary_expired:
  "(\<not> inheritedProperty ident \<longrightarrow>
    (let kept = filter (\<lambda>t. now - interval mem < t) (stored mem ident);
         result = InMemoryRateLimiter_getTimestamps mem ident addNew now
     in fst result = Resolved (kept @ (if addNew then [now] else [])) \<and>
        storage (snd result) ident = Some (kept @ (if addNew then [now] else [])) \<and>
        now - interval mem \<notin> set kept \<and>
        (0 < interval mem \<longrightarrow>
           now - interval mem \<notin> set (kept @ (if addNew then [now] else []))))) \<and>
   (let result = RedisRateLimiter_getTimestamps red ident addNew (now, uuid);
        after = keyMembers (snd result) ident
    in (\<not> addNew \<longrightarrow>
          after = filter (\<lambda>(m, score). \<not> (0 \<le> score \<and> score \<le> now - interval red))
                    (afterDrop red now ident)) \<and>
       (addNew \<longrightarrow>
          after = filter (\<lambda>(m, s). m \<noteq> uuid)
                    (filter (\<lambda>(m, score). \<not> (0 \<le> score \<and> score \<le> now - interval red))
                       (afterDrop red now ident)) @ [(uuid, now)]) \<and>
       fst result = Resolved (sort (map snd after)) \<and>
       (0 < interval red \<longrightarrow>
          (\<forall>m score. 0 \<le> score \<and> score \<le> now - interval red \<longrightarrow> (m, score) \<notin> set after) \<and>
          (0 \<le> now - interval red \<longrightarrow> now - interval red \<notin> set (sort (map snd after)))))"
proof -
  let ?kept = "filter (\<lambda>t. now - interval mem < t) (stored mem ident)"
  let ?result = "InMemoryRateLimiter_getTimestamps mem ident addNew now"
  have k: "inWindow mem now (stored mem ident) = ?kept"
    by (simp add: inWindow_def)
  have m1: "fst ?result = Resolved (?kept @ (if addNew then [now] else []))"
    if "\<not> inheritedProperty ident"
    using that by (simp add: getTimestamps_fst storedOrEmpty_plain k)
  have m2: "storage (snd ?result) ident = Some (?kept @ (if addNew then [now] else []))"
    if "\<not> inheritedProperty ident"
    using that by (simp add: InMemoryRateLimiter_getTimestamps_eq storedOrEmpty_plain k)
  have m3: "now - interval mem \<notin> set ?kept" by simp
  have m4: "0 < interval mem \<longrightarrow>
          now - interval mem \<notin> set (?kept @ (if addNew then [now] else []))"
    by simp
  let ?rresult = "RedisRateLimiter_getTimestamps red ident addNew (now, uuid)"
  let ?after = "keyMembers (snd ?rresult) ident"
  have a: "?after = nextMembers red addNew now uuid (afterDrop red now ident)"
    by (simp add: getTimestamps_redis_keyMembers)
  have r1: "\<not> addNew \<longrightarrow>
          ?after = filter (\<lambda>(m, score). \<not> (0 \<le> score \<and> score \<le> now - interval red))
                    (afterDrop red now ident)"
    unfolding a nextMembers_def Let_def by simp
  have r2: "addNew \<longrightarrow>
          ?after = filter (\<lambda>(m, s). m \<noteq> uuid)
                    (filter (\<lambda>(m, score). \<not> (0 \<le> score \<and> score \<le> now - interval red))
                       (afterDrop red now ident)) @ [(uuid, now)]"
    unfolding a nextMembers_def Let_def by simp
  have r3: "fst ?rresult = Resolved (sort (map snd ?after))"
    unfolding a by (rule getTimestamps_redis_fst)
  have r4: "(m, score) \<notin> set ?after"
    if "0 < interval red" "0 \<le> score \<and> score \<le> now - interval red" for m score
    unfolding a using nextMembers_boundary [of score now red m addNew uuid] that by blast
  have r5: "now - interval red \<notin> set (sort (map snd ?after))"
    if "0 < interval red" "0 \<le> now - interval red"
  proof
    assume "now - interval red \<in> set (sort (map snd ?after))"
    then obtain m where "(m, now - interval red) \<in> set ?after" by auto
    then show False using r4 [OF that(1), of "now - interval red" m] that(2) by simp
  qed
  show ?thesis
    unfolding Let_def using m1 m2 m3 m4 r1 r2 r3 r4 r5 by blast
qed

theorem boundary_expired_witness:
  "\<not> inheritedProperty ''a'' \<and>
   fst (InMemoryRateLimiter_getTimestamps
         \<lparr>interval = 10000, maxInInterval = 3, minDifference = 0,
          storage = [''a'' \<mapsto> [1000, 1001]], ttls = [''a'' \<mapsto> 11001]\<rparr>
         ''a'' False 11000) = Resolved [1001] \<and>
   fst (RedisRateLimiter_getTimestamps
         \<lparr>interval = 10000, maxInInterval = 3, minDifference = 0,
          client = \<lparr>kind = NodeRedis,
                    store = [''ns:a'' \<mapsto> \<lparr>members = [(''u1'', 1000), (''u2'', 1001)],
                                           expireAt = Some 1001001\<rparr>]\<rparr>,
          namespace = ''ns:'', ttl = 1\<rparr>
         ''a'' False (11000, ''u3'')) = Resolved [1001]"
proof -
  let ?mem = "\<lparr>interval = 10000, maxInInterval = 3, minDifference = 0,
          storage = [''a'' \<mapsto> [1000, 1001]], ttls = [''a'' \<mapsto> 11001]\<rparr>"
  let ?red = "\<lparr>interval = 10000, maxInInterval = 3, minDifference = 0,
          client = \<lparr>kind = NodeRedis,
                    store = [''ns:a'' \<mapsto> \<lparr>members = [(''u1'', 1000), (''u2'', 1001)],
                                           expireAt = Some 1001001\<rparr>]\<rparr>,
          namespace = ''ns:'', ttl = 1\<rparr>"
  have s: "stored ?mem ''a'' = [1000, 1001]"
    by (simp add: stored_def)
  have d: "afterDrop ?red 11000 ''a'' = [(''u1'', 1000), (''u2'', 1001)]"
    by (simp add: afterDrop_def dropExpired_def storeMembers_def makeKey_def)
  have p: "\<not> inheritedProperty ''a''"
    by (simp add: inheritedProperty_def)
  show ?thesis
    using boundary_expired [of "''a''" 11000 ?mem False ?red "''u3''"] p
    unfolding Let_def s d by simp
qed
section \<open>Configuration errors\<close>

lemma RateLimiter_cases:
  "(accepted options \<and>
      RateLimiter options =
        Inr \<lparr> interval = (case opt_interval options of None \<Rightarrow> 0 | Some i \<Rightarrow> 1000 * i),
              maxInInterval = (case opt_maxInInterval options of None \<Rightarrow> 0 | Some m \<Rightarrow> m),
              minDifference =
                (case opt_minDifference options of None \<Rightarrow> 0 | Some d \<Rightarrow> 1000 * d) \<rparr>) \<or>
   (\<not> accepted options \<and> (\<exists>msg. RateLimiter options = Inl (AssertionError msg)))"
  by (auto simp: accepted_def RateLimiter_def Let_def millisecondsToMicroseconds_def
           split: option.splits)

lemma call_mem_failed:
  assumes "fst (InMemoryRateLimiter_call mem c) = Failed e"
  shows "(\<exists>msg. e = TypeError msg) \<and> inheritedProperty (identOf c)"
proof (cases "storedOrEmpty mem (identOf c) = None \<and> (\<forall>ident. c \<noteq> Clear ident)")
  case True
  then show ?thesis
    using assms by (auto simp: call_mem_thrown storedOrEmpty_None)
next
  case False
  then have "fst (InMemoryRateLimiter_call mem c) \<noteq> Failed e"
    by (cases c) (simp_all add: call_mem del: InMemoryRateLimiter_call.simps)
  then show ?thesis using assms by simp
qed

lemma execCallback_rejected:
  assumes "execCallback addNew err result = Rejected (AssertionError msg)"
  shows "err = Some (AssertionError msg)"
  using assms
  by (auto simp: execCallback_def split: option.splits sum.splits)

lemma call_redis_not_failed: "fst (RedisRateLimiter_call red cu) \<noteq> Failed e"
proof -
  obtain c uuid where cu: "cu = (c, uuid)" by (cases cu)
  show ?thesis
    unfolding cu
    by (cases c)
       (simp_all only: call_redis_LimitWithInfo call_redis_Limit call_redis_WouldLimitWithInfo
          call_redis_WouldLimit call_redis_Clear fst_conv outcome.distinct not_False_eq_True)
qed

text \<open>
  Claim C8.  The constructor returns an assertion error exactly when the options violate
  \<open>interval > 0\<close>, \<open>maxInInterval > 0\<close> or \<open>minDifference >= 0\<close> (a missing
  \<open>interval\<close> or \<open>maxInInterval\<close> violates, a missing \<open>minDifference\<close> is 0 and
  accepted), for the base class and both subclasses alike.  No later call returns an
  assertion error, whatever the state of the limiter: a call on the in-memory limiter
  fails only with the \<open>TypeError\<close> of an identifier that names an inherited property;
  a call on the shared store does not return one, and the callback of its
  \<open>getTimestamps\<close> rejects with one only if that is the error the store hands it.
\<close>

theorem configuration_errors_at_construction:
  "((\<exists>err. RateLimiter options = Inl err) \<longleftrightarrow> \<not> accepted options) \<and>
   ((\<exists>err. InMemoryRateLimiter options = Inl err) \<longleftrightarrow> \<not> accepted options) \<and>
   ((\<exists>err. RedisRateLimiter cl ns options = Inl err) \<longleftrightarrow> \<not> accepted options) \<and>
   (\<forall>err. RateLimiter options = Inl err \<longrightarrow> (\<exists>msg. err = AssertionError msg)) \<and>
   (\<forall>this. RateLimiter options = Inr this \<and> opt_minDifference options = None \<longrightarrow>
      minDifference this = 0) \<and>
   (\<forall>msg. fst (InMemoryRateLimiter_call mem c) \<noteq> Failed (AssertionError msg)) \<and>
   (\<forall>e. fst (InMemoryRateLimiter_call mem c) = Failed e \<longrightarrow>
      (\<exists>msg. e = TypeError msg) \<and> inheritedProperty (identOf c)) \<and>
   (\<forall>msg. fst (RedisRateLimiter_call red cu) \<noteq> Failed (AssertionError msg)) \<and>
   (\<forall>msg. execCallback addNew err result = Rejected (AssertionError msg) \<longrightarrow>
      err = Some (AssertionError msg))"
proof -
  have a: "(\<exists>err. RateLimiter options = Inl err) \<longleftrightarrow> \<not> accepted options"
    using RateLimiter_cases [of options] by auto
  have b: "(\<exists>err. InMemoryRateLimiter options = Inl err) \<longleftrightarrow> (\<exists>err. RateLimiter options = Inl err)"
    by (auto simp: InMemoryRateLimiter_def split: sum.splits)
  have c: "(\<exists>err. RedisRateLimiter cl ns options = Inl err) \<longleftrightarrow>
           (\<exists>err. RateLimiter options = Inl err)"
    by (auto simp: RedisRateLimiter_def split: sum.splits)
  have d: "\<forall>err. RateLimiter options = Inl err \<longrightarrow> (\<exists>msg. err = AssertionError msg)"
    using RateLimiter_cases [of options] by auto
  have e: "\<forall>this. RateLimiter options = Inr this \<and> opt_minDifference options = None \<longrightarrow>
      minDifference this = 0"
    using RateLimiter_cases [of options] by auto
  have f: "\<forall>e. fst (InMemoryRateLimiter_call mem c) = Failed e \<longrightarrow>
      (\<exists>msg. e = TypeError msg) \<and> inheritedProperty (identOf c)"
    using call_mem_failed by blast
  then have g: "\<forall>msg. fst (InMemoryRateLimiter_call mem c) \<noteq> Failed (AssertionError msg)"
    by blast
  have h: "\<forall>msg. fst (RedisRateLimiter_call red cu) \<noteq> Failed (AssertionError msg)"
    using call_redis_not_failed by blast
  have i: "\<forall>msg. execCallback addNew err result = Rejected (AssertionError msg) \<longrightarrow>
      err = Some (AssertionError msg)"
    using execCallback_rejected by blast
  show ?thesis
    using a b c d e f g h i by blast
qed

theorem configuration_errors_at_construction_witness:
  "RateLimiter \<lparr>opt_interval = Some 10000, opt_maxInInterval = Some 5,
                 opt_minDifference = None\<rparr> =
     Inr \<lparr>interval = 10000000, maxInInterval = 5, minDifference = 0\<rparr> \<and>
   (\<exists>err. RateLimiter \<lparr>opt_interval = Some 0, opt_maxInInterval = Some 5,
                         opt_minDifference = Some 500\<rparr> = Inl err) \<and>
   (\<exists>err. RateLimiter \<lparr>opt_interval = Some 10000, opt_maxInInterval = None,
                         opt_minDifference = Some 500\<rparr> = Inl err) \<and>
   (\<exists>err. RateLimiter \<lparr>opt_interval = Some 10000, opt_maxInInterval = Some 5,
                         opt_minDifference = Some (- 1)\<rparr> = Inl err)"
proof -
  have 1: "\<not> accepted \<lparr>opt_interval = Some 0, opt_maxInInterval = Some 5,
                         opt_minDifference = Some 500\<rparr>"
    and 2: "\<not> accepted \<lparr>opt_interval = Some 10000, opt_maxInInterval = None,
                         opt_minDifference = Some 500\<rparr>"
    and 3: "\<not> accepted \<lparr>opt_interval = Some 10000, opt_maxInInterval = Some 5,
                         opt_minDifference = Some (- 1)\<rparr>"
    by (simp_all add: accepted_def)
  have v: "RateLimiter \<lparr>opt_interval = Some 10000, opt_maxInInterval = Some 5,
                 opt_minDifference = None\<rparr> =
     Inr \<lparr>interval = 10000000, maxInInterval = 5, minDifference = 0\<rparr>"
    by (simp add: RateLimiter_def millisecondsToMicroseconds_def)
  have e1: "\<exists>err. RateLimiter \<lparr>opt_interval = Some 0, opt_maxInInterval = Some 5,
                         opt_minDifference = Some 500\<rparr> = Inl err"
    using configuration_errors_at_construction
            [where options = "\<lparr>opt_interval = Some 0, opt_maxInInterval = Some 5,
                         opt_minDifference = Some 500\<rparr>", THEN conjunct1] 1
    by (rule iffD2)
  have e2: "\<exists>err. RateLimiter \<lparr>opt_interval = Some 10000, opt_maxInInterval = None,
                         opt_minDifference = Some 500\<rparr> = Inl err"
    using configuration_errors_at_construction
            [where options = "\<lparr>opt_interval = Some 10000, opt_maxInInterval = None,
                         opt_minDifference = Some 500\<rparr>", THEN conjunct1] 2
    by (rule iffD2)
  have e3: "\<exists>err. RateLimiter \<lparr>opt_interval = Some 10000, opt_maxInInterval = Some 5,
                         opt_minDifference = Some (- 1)\<rparr> = Inl err"
    using configuration_errors_at_construction
            [where options = "\<lparr>opt_interval = Some 10000, opt_maxInInterval = Some 5,
                         opt_minDifference = Some (- 1)\<rparr>", THEN conjunct1] 3
    by (rule iffD2)
  show ?thesis
    using e1 e2 e3 v by blast
qed


end
